theory Spec2Isabelle
  imports Main "HOL-Library.Multiset"
begin

section \<open>JSON values\<close>

text \<open>
  The harness passes \<^verbatim>\<open>map[string]any\<close> values around: scripted events and decoded
  request payloads. A Go map is an association list with pairwise distinct keys here; the
  values are the JSON-representable ones the harness builds (\<^verbatim>\<open>nil\<close>, booleans,
  integers, strings, slices and nested maps).
\<close>

datatype json =
    JNull
  | JBool bool
  | JNum int
  | JStr string
  | JArr "json list"
  | JObj "(string \<times> json) list"

type_synonym jmap = "(string \<times> json) list"

section \<open>The stub Responses API server\<close>

text \<open>
  \<^verbatim>\<open>type stubServer struct { mu sync.Mutex; sseQueue []string; responseReqs []map[string]any }\<close>
  The mutex has no content in a sequential model: every method below is one critical
  section, run from \<^verbatim>\<open>Lock\<close> to \<^verbatim>\<open>Unlock\<close> without interruption.
\<close>

record stubServer =
  sseQueue :: "string list"
  responseReqs :: "jmap list"

text \<open>\<^verbatim>\<open>popSSE\<close>: the head of the queue and \<^verbatim>\<open>true\<close>, or \<^verbatim>\<open>("", false)\<close> on an empty queue.\<close>

definition popSSE :: "stubServer \<Rightarrow> (string \<times> bool) \<times> stubServer" where
  "popSSE s =
     (case sseQueue s of
        [] \<Rightarrow> (('''', False), s)
      | body # rest \<Rightarrow> ((body, True), s\<lparr>sseQueue := rest\<rparr>))"

definition recordResponseRequest :: "jmap \<Rightarrow> stubServer \<Rightarrow> stubServer" where
  "recordResponseRequest body s = s\<lparr>responseReqs := responseReqs s @ [body]\<rparr>"

text \<open>\<^verbatim>\<open>strings.HasSuffix\<close>: \<^verbatim>\<open>len(s) >= len(suffix) && s[len(s)-len(suffix):] == suffix\<close>.\<close>

definition HasSuffix :: "string \<Rightarrow> string \<Rightarrow> bool" where
  "HasSuffix s suf \<longleftrightarrow> length suf \<le> length s \<and> drop (length s - length suf) s = suf"

record request =
  Method :: string
  URLPath :: string
  Body :: string

text \<open>
  What the handler leaves in the \<^verbatim>\<open>http.ResponseWriter\<close>: the status (200 unless
  set), the content-type header and the bytes written.
\<close>

record response =
  status :: nat
  contentType :: string
  written :: string

definition StatusOK :: nat where "StatusOK = 200"
definition StatusNotFound :: nat where "StatusNotFound = 404"
definition StatusInternalServerError :: nat where "StatusInternalServerError = 500"

text \<open>
  \<^verbatim>\<open>http.Error(w, msg, code)\<close> sets a plain-text content type, writes the status and
  prints the message followed by a newline; \<^verbatim>\<open>http.NotFound\<close> is
  \<^verbatim>\<open>http.Error(w, "404 page not found", 404)\<close>.
\<close>

definition http_Error :: "string \<Rightarrow> nat \<Rightarrow> response" where
  "http_Error msg code =
     \<lparr>status = code, contentType = ''text/plain; charset=utf-8'', written = msg @ [CHR 0x0A]\<rparr>"

definition http_NotFound :: response where
  "http_NotFound = http_Error ''404 page not found'' StatusNotFound"

text \<open>
  \<^verbatim>\<open>ServeHTTP\<close>. The parameter \<open>unmarshal\<close> stands for
  \<^verbatim>\<open>json.Unmarshal(raw, &parsed)\<close> with \<^verbatim>\<open>parsed\<close> a nil \<^verbatim>\<open>map[string]any\<close>: it
  gives the map left in \<^verbatim>\<open>parsed\<close> (the nil map is \<open>[]\<close>) and the error, which the
  handler discards. The handler only looks at \<^verbatim>\<open>len(parsed)\<close>.
\<close>

definition ServeHTTP ::
  "(string \<Rightarrow> jmap \<times> string option) \<Rightarrow> stubServer \<Rightarrow> request \<Rightarrow> response \<times> stubServer" where
  "ServeHTTP unmarshal s r =
     (if Method r = ''GET'' \<and> HasSuffix (URLPath r) ''/models'' then
        (\<lparr>status = StatusOK, contentType = ''application/json'',
          written = ''{\"models\":[]}''\<rparr>, s)
      else if Method r = ''POST'' \<and> HasSuffix (URLPath r) ''/responses'' then
        (let raw = Body r;
             parsed = fst (unmarshal raw);
             s1 = (if length parsed \<noteq> 0 then recordResponseRequest parsed s else s);
             ((body, ok), s2) = popSSE s1
         in if \<not> ok then
              (http_Error ''no queued SSE responses'' StatusInternalServerError, s2)
            else
              (\<lparr>status = StatusOK, contentType = ''text/event-stream'', written = body\<rparr>, s2))
      else if Method r = ''POST'' \<and> HasSuffix (URLPath r) ''/responses/compact'' then
        (\<lparr>status = StatusOK, contentType = ''application/json'',
          written = ''{\"summary\":\"ok\"}''\<rparr>, s)
      else (http_NotFound, s))"

text \<open>Requests handled one after the other, as the scenario issues them.\<close>

fun serveAll ::
  "(string \<Rightarrow> jmap \<times> string option) \<Rightarrow> stubServer \<Rightarrow> request list \<Rightarrow> response list \<times> stubServer" where
  "serveAll unmarshal s [] = ([], s)"
| "serveAll unmarshal s (r # rs) =
     (let (resp, s1) = ServeHTTP unmarshal s r;
          (resps, s2) = serveAll unmarshal s1 rs
      in (resp # resps, s2))"

definition isCreateResponse :: "request \<Rightarrow> bool" where
  "isCreateResponse r \<longleftrightarrow> Method r = ''POST'' \<and> HasSuffix (URLPath r) ''/responses''"

definition streamed :: "string \<Rightarrow> response" where
  "streamed body = \<lparr>status = StatusOK, contentType = ''text/event-stream'', written = body\<rparr>"

definition exhausted :: response where
  "exhausted = http_Error ''no queued SSE responses'' StatusInternalServerError"











section \<open>Library functions the collector and the validator call\<close>

text \<open>
  \<^verbatim>\<open>strconv.Itoa\<close>: the decimal rendering of an \<^verbatim>\<open>int\<close>, a minus sign before the
  digits of a negative number, no leading zeros, \<^verbatim>\<open>"0"\<close> for zero.
\<close>

definition digitChar :: "nat \<Rightarrow> char" where
  "digitChar d = ''0123456789'' ! d"

function natDigits :: "nat \<Rightarrow> string" where
  "natDigits n = (if n < 10 then [digitChar n] else natDigits (n div 10) @ [digitChar (n mod 10)])"
  by pat_completeness auto
termination
  by (relation "measure id") auto

declare natDigits.simps [simp del]

definition Itoa :: "int \<Rightarrow> string" where
  "Itoa i = (if i < 0 then CHR ''-'' # natDigits (nat (- i)) else natDigits (nat i))"

text \<open>
  \<^verbatim>\<open>strconv.Atoi\<close> on a platform with 64-bit \<^verbatim>\<open>int\<close>: \<^verbatim>\<open>ParseInt(s, 10, 0)\<close>, whose
  fast path for short strings computes the same. An optional sign, then one or more
  decimal digits; base 10 admits no underscore. \<^verbatim>\<open>ParseUint\<close> reads the digits left
  to right and stops with a range error as soon as the value leaves 64 bits.
\<close>

datatype numError = ErrSyntax | ErrRange

definition isDigit :: "char \<Rightarrow> bool" where
  "isDigit c \<longleftrightarrow> 48 \<le> (of_char c :: nat) \<and> (of_char c :: nat) \<le> 57"

definition digitVal :: "char \<Rightarrow> nat" where
  "digitVal c = of_char c - 48"

definition maxUint64 :: nat where
  "maxUint64 = 18446744073709551615"

definition cutoffInt64 :: nat where
  "cutoffInt64 = 9223372036854775808"

fun parseDigits :: "nat \<Rightarrow> string \<Rightarrow> numError + nat" where
  "parseDigits n [] = Inr n"
| "parseDigits n (c # cs) =
     (if \<not> isDigit c then Inl ErrSyntax
      else (let n1 = n * 10 + digitVal c
            in if n1 > maxUint64 then Inl ErrRange else parseDigits n1 cs))"

definition ParseUint :: "string \<Rightarrow> numError + nat" where
  "ParseUint s = (if s = [] then Inl ErrSyntax else parseDigits 0 s)"

definition Atoi :: "string \<Rightarrow> numError + int" where
  "Atoi s =
     (if s = [] then Inl ErrSyntax
      else (let neg = (hd s = CHR ''-'');
                s1 = (if hd s = CHR ''+'' \<or> hd s = CHR ''-'' then tl s else s)
            in case ParseUint s1 of
                 Inl e \<Rightarrow> Inl e
               | Inr un \<Rightarrow>
                   if \<not> neg \<and> un \<ge> cutoffInt64 then Inl ErrRange
                   else if neg \<and> un > cutoffInt64 then Inl ErrRange
                   else Inr (if neg then - int un else int un)))"

text \<open>
  \<^verbatim>\<open>filepath.Ext\<close>: the suffix from the last dot of the last path element, empty when
  that element has no dot. The scan runs from the end of the path and stops at a slash.
\<close>

fun extScan :: "string \<Rightarrow> string \<Rightarrow> string" where
  "extScan acc [] = []"
| "extScan acc (c # cs) =
     (if c = CHR ''/'' then []
      else if c = CHR ''.'' then c # acc
      else extScan (c # acc) cs)"

definition Ext :: "string \<Rightarrow> string" where
  "Ext path = extScan [] (rev path)"

definition TrimSuffix :: "string \<Rightarrow> string \<Rightarrow> string" where
  "TrimSuffix s suf = (if HasSuffix s suf then take (length s - length suf) s else s)"

text \<open>
  \<^verbatim>\<open>filepath.Clean\<close> and \<^verbatim>\<open>filepath.Join\<close> on a system whose separator is the slash.
  \<^verbatim>\<open>Clean\<close> goes through the elements of the path: it drops empty elements and dots, lets
  a double dot remove the element before it (or, in a path that is not rooted, stay when
  there is none to remove), and gives a dot for an empty result. \<^verbatim>\<open>Join\<close> cleans the
  elements joined by a slash, starting at the first element that is not empty.
\<close>

fun splitSlash :: "string \<Rightarrow> string \<Rightarrow> string list" where
  "splitSlash acc [] = [rev acc]"
| "splitSlash acc (c # cs) =
     (if c = CHR ''/'' then rev acc # splitSlash [] cs else splitSlash (c # acc) cs)"

fun cleanElems :: "bool \<Rightarrow> string list \<Rightarrow> string list \<Rightarrow> string list" where
  "cleanElems rooted [] out = rev out"
| "cleanElems rooted (e # es) out =
     (if e = [] \<or> e = ''.'' then cleanElems rooted es out
      else if e = ''..'' then
        (case out of
           [] \<Rightarrow> if rooted then cleanElems rooted es [] else cleanElems rooted es [''..'']
         | prev # below \<Rightarrow>
             if prev = ''..'' then cleanElems rooted es (''..'' # prev # below)
             else cleanElems rooted es below)
      else cleanElems rooted es (e # out))"

fun joinSlash :: "string list \<Rightarrow> string" where
  "joinSlash [] = []"
| "joinSlash [e] = e"
| "joinSlash (e # f # es) = e @ ''/'' @ joinSlash (f # es)"

definition Clean :: "string \<Rightarrow> string" where
  "Clean path =
     (if path = [] then ''.''
      else (let rooted = (hd path = CHR ''/'');
                out = cleanElems rooted (splitSlash [] path) []
            in if rooted then CHR ''/'' # joinSlash out
               else if out = [] then ''.''
               else joinSlash out))"

definition Join :: "string \<Rightarrow> string \<Rightarrow> string" where
  "Join dir base =
     (if dir \<noteq> [] then Clean (dir @ ''/'' @ base)
      else if base \<noteq> [] then Clean base
      else [])"

section \<open>The collector\<close>

record hookCall =
  Seq :: int
  SeqStr :: string
  Expected :: string
  Event :: string
  SubmissionID :: string
  Path :: string

record hookCallJSON =
  seq :: string
  expected :: string
  event :: string
  submission_id :: string

text \<open>
  One entry of the listing \<^verbatim>\<open>os.ReadDir\<close> returns, with what \<^verbatim>\<open>os.ReadFile\<close> gives
  for it: the cause of an error or the bytes of the file. The error of \<^verbatim>\<open>os.ReadFile\<close>
  is a \<^verbatim>\<open>*PathError\<close>, which carries the path beside the cause: \<open>ReadFileError path cause\<close>.
\<close>

record dirEntry =
  Name :: string
  IsDir :: bool
  Data :: "string + string"

datatype error =
    ReadDirError string
  | ReadFileError string string
  | ParseHookRecord string string
  | TimedOut int string int

text \<open>
  The loop of \<^verbatim>\<open>readHookCallsOnce\<close> over the entries. The parameter \<open>unmarshal\<close> stands
  for \<^verbatim>\<open>json.Unmarshal(b, &parsed)\<close> into a \<^verbatim>\<open>hookCallJSON\<close>: the error, or the struct.
  \<^verbatim>\<open>ParseHookRecord path e\<close> is the error \<^verbatim>\<open>"parse hook record %s: %w"\<close>.
\<close>

fun readEntries ::
  "(string \<Rightarrow> string + hookCallJSON) \<Rightarrow> string \<Rightarrow> dirEntry list \<Rightarrow> hookCall list
     \<Rightarrow> error + hookCall list" where
  "readEntries unmarshal dir [] calls = Inr calls"
| "readEntries unmarshal dir (ent # ents) calls =
     (if IsDir ent then readEntries unmarshal dir ents calls
      else (let base = Name ent;
                seqStr = TrimSuffix base (Ext base)
            in case Atoi seqStr of
                 Inl err \<Rightarrow> readEntries unmarshal dir ents calls
               | Inr sq \<Rightarrow>
                   (let path = Join dir base
                    in case Data ent of
                         Inl err \<Rightarrow> Inl (ReadFileError path err)
                       | Inr b \<Rightarrow>
                           (case unmarshal b of
                              Inl err \<Rightarrow> Inl (ParseHookRecord path err)
                            | Inr parsed \<Rightarrow>
                                readEntries unmarshal dir ents
                                  (calls @ [\<lparr>Seq = sq, SeqStr = seq parsed,
                                             Expected = expected parsed, Event = event parsed,
                                             SubmissionID = submission_id parsed,
                                             Path = path\<rparr>])))))"

text \<open>
  \<^verbatim>\<open>sort.Slice(calls, func(i, j int) bool { return calls[i].Seq < calls[j].Seq })\<close>.
  The library sorts a slice of at most twelve elements by insertion, which keeps records
  of equal \<^verbatim>\<open>Seq\<close> in their order, as the sort of the model does; for a longer slice
  it promises a sorted rearrangement only, and the order it gives to records of equal
  \<^verbatim>\<open>Seq\<close> is not modelled. The theorems below use no more than that promise: that the
  result is sorted by \<^verbatim>\<open>Seq\<close> and has the records of the input.
\<close>

definition sortBySeq :: "hookCall list \<Rightarrow> hookCall list" where
  "sortBySeq calls = sort_key Seq calls"

definition readHookCallsOnce ::
  "(string \<Rightarrow> string + hookCallJSON) \<Rightarrow> string \<Rightarrow> string + dirEntry list
     \<Rightarrow> error + hookCall list" where
  "readHookCallsOnce unmarshal dir listing =
     (case listing of
        Inl err \<Rightarrow> Inl (ReadDirError err)
      | Inr entries \<Rightarrow>
          (case readEntries unmarshal dir entries [] of
             Inl err \<Rightarrow> Inl err
           | Inr calls \<Rightarrow> Inr (sortBySeq calls)))"

text \<open>
  Names for what one scan does to one entry. \<open>stem\<close> is the file name without its
  extension; an entry is \<open>selected\<close> when it is not a directory and its stem parses as an
  integer, \<open>seqOf\<close> being that integer; \<open>entryResult\<close> is what reading and decoding a
  selected entry gives, the record or the error; \<open>errorPath\<close> is the path an error names.
\<close>

definition stem :: "string \<Rightarrow> string" where
  "stem base = TrimSuffix base (Ext base)"

definition selected :: "dirEntry \<Rightarrow> bool" where
  "selected ent \<longleftrightarrow> \<not> IsDir ent \<and> (case Atoi (stem (Name ent)) of Inl err \<Rightarrow> False | Inr n \<Rightarrow> True)"

definition seqOf :: "dirEntry \<Rightarrow> int" where
  "seqOf ent = (case Atoi (stem (Name ent)) of Inl err \<Rightarrow> 0 | Inr n \<Rightarrow> n)"

definition entryResult ::
  "(string \<Rightarrow> string + hookCallJSON) \<Rightarrow> string \<Rightarrow> dirEntry \<Rightarrow> error + hookCall" where
  "entryResult unmarshal dir ent =
     (case Data ent of
        Inl err \<Rightarrow> Inl (ReadFileError (Join dir (Name ent)) err)
      | Inr b \<Rightarrow>
          (case unmarshal b of
             Inl err \<Rightarrow> Inl (ParseHookRecord (Join dir (Name ent)) err)
           | Inr parsed \<Rightarrow>
               Inr \<lparr>Seq = seqOf ent, SeqStr = seq parsed, Expected = expected parsed,
                    Event = event parsed, SubmissionID = submission_id parsed,
                    Path = Join dir (Name ent)\<rparr>))"

fun errorPath :: "error \<Rightarrow> string" where
  "errorPath (ReadDirError err) = []"
| "errorPath (ReadFileError path err) = path"
| "errorPath (ParseHookRecord path err) = path"
| "errorPath (TimedOut want dir found) = dir"

text \<open>
  \<^verbatim>\<open>listHookCalls\<close>. What the loop sees of the world in one iteration is a \<open>poll\<close>:
  the listing of the directory, the clock reading of the stability branch (the
  \<^verbatim>\<open>time.Now()\<close> that sets \<^verbatim>\<open>stableSince\<close>, or the one inside \<^verbatim>\<open>time.Since\<close>) and the
  clock reading of the deadline test. Times are nanoseconds; the zero \<^verbatim>\<open>time.Time\<close> of
  an unset \<^verbatim>\<open>stableSince\<close> is \<open>None\<close>. The loop runs over a finite list of polls, and
  \<open>None\<close> says that it is still running when they are used up.
\<close>

record poll =
  listing :: "string + dirEntry list"
  nowStable :: int
  nowDeadline :: int

definition Millisecond :: int where
  "Millisecond = 1000000"

definition quietFor :: int where
  "quietFor = 200 * Millisecond"

text \<open>
  The end of the loop body: \<^verbatim>\<open>lastCount = len(calls)\<close>, then the deadline test, which
  either fails with the timeout error or goes on to the next iteration with the new
  \<^verbatim>\<open>lastCount\<close> and \<^verbatim>\<open>stableSince\<close>.
\<close>

definition endOfIteration ::
  "string \<Rightarrow> int \<Rightarrow> int \<Rightarrow> poll \<Rightarrow> int \<Rightarrow> int option
     \<Rightarrow> (error + hookCall list) + (int \<times> int option)" where
  "endOfIteration dir wantAtLeast deadline p n stableSince =
     (if nowDeadline p > deadline then Inl (Inl (TimedOut wantAtLeast dir n))
      else Inr (n, stableSince))"

text \<open>One iteration: the value the function returns, or the variables of the next one.\<close>

definition listStep ::
  "(string \<Rightarrow> string + hookCallJSON) \<Rightarrow> string \<Rightarrow> int \<Rightarrow> int \<Rightarrow> int \<Rightarrow> int option \<Rightarrow> poll
     \<Rightarrow> (error + hookCall list) + (int \<times> int option)" where
  "listStep unmarshal dir wantAtLeast deadline lastCount stableSince p =
     (case readHookCallsOnce unmarshal dir (listing p) of
        Inl err \<Rightarrow> Inl (Inl err)
      | Inr calls \<Rightarrow>
          (let n = int (length calls)
           in if n \<ge> wantAtLeast then
                (if n = lastCount then
                   (case stableSince of
                      None \<Rightarrow> endOfIteration dir wantAtLeast deadline p n (Some (nowStable p))
                    | Some since \<Rightarrow>
                        if nowStable p - since \<ge> quietFor then Inl (Inr calls)
                        else endOfIteration dir wantAtLeast deadline p n (Some since))
                 else endOfIteration dir wantAtLeast deadline p n None)
              else endOfIteration dir wantAtLeast deadline p n stableSince))"

fun listLoop ::
  "(string \<Rightarrow> string + hookCallJSON) \<Rightarrow> string \<Rightarrow> int \<Rightarrow> int \<Rightarrow> int \<Rightarrow> int option
     \<Rightarrow> poll list \<Rightarrow> (error + hookCall list) option" where
  "listLoop unmarshal dir wantAtLeast deadline lastCount stableSince [] = None"
| "listLoop unmarshal dir wantAtLeast deadline lastCount stableSince (p # ps) =
     (case listStep unmarshal dir wantAtLeast deadline lastCount stableSince p of
        Inl result \<Rightarrow> Some result
      | Inr (n, stableSince1) \<Rightarrow> listLoop unmarshal dir wantAtLeast deadline n stableSince1 ps)"

definition listHookCalls ::
  "(string \<Rightarrow> string + hookCallJSON) \<Rightarrow> string \<Rightarrow> int \<Rightarrow> int \<Rightarrow> int \<Rightarrow> poll list
     \<Rightarrow> (error + hookCall list) option" where
  "listHookCalls unmarshal dir wantAtLeast timeout start polls =
     listLoop unmarshal dir wantAtLeast (start + timeout) 0 None polls"

text \<open>The number of records a poll's scan finds, when the scan succeeds.\<close>

definition pollCount ::
  "(string \<Rightarrow> string + hookCallJSON) \<Rightarrow> string \<Rightarrow> poll \<Rightarrow> int option" where
  "pollCount unmarshal dir p =
     (case readHookCallsOnce unmarshal dir (listing p) of
        Inl err \<Rightarrow> None
      | Inr calls \<Rightarrow> Some (int (length calls)))"

text \<open>
  The history of a run of the loop, in terms of the polls it has seen. \<open>countBefore\<close> is
  the value of \<^verbatim>\<open>lastCount\<close> when poll \<open>j\<close> is made: 0 at the first poll, the count of
  the poll before otherwise. Poll \<open>j\<close> \<open>repeatsFrom\<close> count \<open>c\<close> when it finds the count
  that \<^verbatim>\<open>lastCount\<close> holds, \<open>c\<close>, and every later poll seen finds \<open>c\<close> too. Poll \<open>j\<close>
  \<open>startsStability\<close> at \<open>c\<close> when it is the first such poll: the poll before it found
  \<open>c\<close> after another count, or \<open>j\<close> is the first poll of all.
\<close>

definition countBefore ::
  "(string \<Rightarrow> string + hookCallJSON) \<Rightarrow> string \<Rightarrow> poll list \<Rightarrow> nat \<Rightarrow> int option" where
  "countBefore unmarshal dir seen j =
     (if j = 0 then Some 0 else pollCount unmarshal dir (seen ! (j - 1)))"

definition repeatsFrom ::
  "(string \<Rightarrow> string + hookCallJSON) \<Rightarrow> string \<Rightarrow> poll list \<Rightarrow> nat \<Rightarrow> int \<Rightarrow> bool" where
  "repeatsFrom unmarshal dir seen j c \<longleftrightarrow>
     j < length seen \<and> countBefore unmarshal dir seen j = Some c
     \<and> list_all (\<lambda>q. pollCount unmarshal dir q = Some c) (drop j seen)"

definition startsStability ::
  "(string \<Rightarrow> string + hookCallJSON) \<Rightarrow> string \<Rightarrow> poll list \<Rightarrow> nat \<Rightarrow> int \<Rightarrow> bool" where
  "startsStability unmarshal dir seen j c \<longleftrightarrow>
     repeatsFrom unmarshal dir seen j c
     \<and> (j = 0 \<or> countBefore unmarshal dir seen (j - 1) \<noteq> Some c)"

text \<open>
  What the variables of the loop hold after the polls seen: \<^verbatim>\<open>lastCount\<close> is the count
  of the last poll, and, when that count is at or above the minimum, \<^verbatim>\<open>stableSince\<close> is
  the clock reading of the poll that started stability at it, unset when there is none.
\<close>

definition tracks ::
  "(string \<Rightarrow> string + hookCallJSON) \<Rightarrow> string \<Rightarrow> int \<Rightarrow> poll list \<Rightarrow> int \<Rightarrow> int option
     \<Rightarrow> bool" where
  "tracks unmarshal dir wantAtLeast seen lastCount stableSince \<longleftrightarrow>
     countBefore unmarshal dir seen (length seen) = Some lastCount
     \<and> (wantAtLeast \<le> lastCount \<longrightarrow>
          (case stableSince of
             None \<Rightarrow> \<forall>j<length seen. \<not> repeatsFrom unmarshal dir seen j lastCount
           | Some t \<Rightarrow>
               \<exists>j<length seen. startsStability unmarshal dir seen j lastCount
                  \<and> t = nowStable (seen ! j)))"

section \<open>The validator\<close>

text \<open>
  The checks at the end of \<^verbatim>\<open>main\<close>. Each failing check prints its message and calls
  \<^verbatim>\<open>os.Exit(1)\<close>; a \<open>violation\<close> is that message, with the values it prints.
\<close>

datatype violation =
    SeqMismatch int string string
  | ExpectedEventMismatch string string int string
  | UnexpectedSequence "string list" "string list"
  | UnexpectedCount nat "string list" nat

fun equalFrom :: "string list \<Rightarrow> string list \<Rightarrow> bool" where
  "equalFrom [] b = True"
| "equalFrom (x # a) [] = True"
| "equalFrom (x # a) (y # b) = (if x \<noteq> y then False else equalFrom a b)"

definition equalStrings :: "string list \<Rightarrow> string list \<Rightarrow> bool" where
  "equalStrings a b = (if length a \<noteq> length b then False else equalFrom a b)"

fun checkCalls :: "hookCall list \<Rightarrow> string list \<Rightarrow> violation + string list" where
  "checkCalls [] got = Inr got"
| "checkCalls (c # cs) got =
     (if SeqStr c \<noteq> [] \<and> SeqStr c \<noteq> Itoa (Seq c) then
        Inl (SeqMismatch (Seq c) (SeqStr c) (Path c))
      else if Expected c \<noteq> Event c then
        Inl (ExpectedEventMismatch (Expected c) (Event c) (Seq c) (Path c))
      else checkCalls cs (got @ [Event c]))"

definition validate :: "hookCall list \<Rightarrow> string list \<Rightarrow> violation + unit" where
  "validate calls want =
     (case checkCalls calls [] of
        Inl v \<Rightarrow> Inl v
      | Inr got \<Rightarrow>
          if \<not> equalStrings got want then Inl (UnexpectedSequence got want)
          else if length calls \<noteq> length want then
            Inl (UnexpectedCount (length calls) got (length want))
          else Inr ())"

text \<open>The expected names that \<^verbatim>\<open>main\<close> passes to the checks.\<close>

definition mainWant :: "string list" where
  "mainWant = [''turn_started'', ''exec_command_begin'', ''exec_command_end'', ''turn_complete'']"

text \<open>
  The four checks as the specification lists them, each over the whole input: (1) some
  record's self-reported sequence string is present and differs from the rendering of the
  number decoded from its file name; (2) some record's expected field differs from its
  observed event; (3) the observed event names differ from the expected ones; (4) the
  counts differ. \<open>violatedChecks\<close> lists the checks an input violates, \<open>reportedChecks\<close>
  the checks whose violation the run of \<open>validate\<close> reports.
\<close>

datatype check = SeqCheck | ExpectedEventCheck | OrderCheck | CountCheck

definition seqBad :: "hookCall \<Rightarrow> bool" where
  "seqBad c \<longleftrightarrow> SeqStr c \<noteq> [] \<and> SeqStr c \<noteq> Itoa (Seq c)"

definition expectedBad :: "hookCall \<Rightarrow> bool" where
  "expectedBad c \<longleftrightarrow> Expected c \<noteq> Event c"

definition violatedChecks :: "hookCall list \<Rightarrow> string list \<Rightarrow> check list" where
  "violatedChecks calls want =
     (if list_ex seqBad calls then [SeqCheck] else []) @
     (if list_ex expectedBad calls then [ExpectedEventCheck] else []) @
     (if map Event calls \<noteq> want then [OrderCheck] else []) @
     (if length calls \<noteq> length want then [CountCheck] else [])"

fun checkOf :: "violation \<Rightarrow> check" where
  "checkOf (SeqMismatch n s p) = SeqCheck"
| "checkOf (ExpectedEventMismatch e v n p) = ExpectedEventCheck"
| "checkOf (UnexpectedSequence got want) = OrderCheck"
| "checkOf (UnexpectedCount n got m) = CountCheck"

definition reportedChecks :: "hookCall list \<Rightarrow> string list \<Rightarrow> check list" where
  "reportedChecks calls want =
     (case validate calls want of Inl v \<Rightarrow> [checkOf v] | Inr u \<Rightarrow> [])"

section \<open>Encoding scripted events\<close>

text \<open>
  \<^verbatim>\<open>json.Marshal\<close> on the values of the model. A string is quoted; the quote and the
  backslash are escaped with a backslash, the control characters \<^verbatim>\<open>\b \f \n \r \t\<close> by
  their short forms, every other byte below 0x20 and, because HTML escaping is on, the
  characters \<^verbatim>\<open><\<close>, \<^verbatim>\<open>>\<close> and \<^verbatim>\<open>&\<close> as \<^verbatim>\<open>\u00XX\<close>. An integer is
  printed as \<^verbatim>\<open>strconv.Itoa\<close> prints it. The members of an object are printed in the
  order of their keys, compared byte by byte. The maps of the model are not nil.
\<close>

definition LF :: char where
  "LF = CHR 0x0A"

definition hexDigit :: "nat \<Rightarrow> char" where
  "hexDigit n = ''0123456789abcdef'' ! n"

definition escapeByte :: "char \<Rightarrow> string" where
  "escapeByte c =
     (if c = CHR 0x22 \<or> c = CHR 0x5C then [CHR 0x5C, c]
      else if c = CHR 0x08 then [CHR 0x5C, CHR ''b'']
      else if c = CHR 0x0C then [CHR 0x5C, CHR ''f'']
      else if c = CHR 0x0A then [CHR 0x5C, CHR ''n'']
      else if c = CHR 0x0D then [CHR 0x5C, CHR ''r'']
      else if c = CHR 0x09 then [CHR 0x5C, CHR ''t'']
      else if (of_char c :: nat) < 32 \<or> c = CHR ''<'' \<or> c = CHR ''>'' \<or> c = CHR ''&'' then
        [CHR 0x5C, CHR ''u'', CHR ''0'', CHR ''0'',
         hexDigit (of_char c div 16), hexDigit (of_char c mod 16)]
      else [c])"

text \<open>
  The length of the UTF-8 encoding that starts a string, as \<^verbatim>\<open>utf8.DecodeRuneInString\<close>
  accepts it, and 0 where the bytes are no valid encoding (the library then reports one
  byte and the replacement character).
\<close>

definition inRange :: "nat \<Rightarrow> nat \<Rightarrow> char \<Rightarrow> bool" where
  "inRange lo hi c \<longleftrightarrow> lo \<le> (of_char c :: nat) \<and> (of_char c :: nat) \<le> hi"

definition runeLen :: "string \<Rightarrow> nat" where
  "runeLen s =
     (case s of
        [] \<Rightarrow> 0
      | b0 # rest \<Rightarrow>
          (if (of_char b0 :: nat) < 128 then 1
           else if inRange 194 223 b0 then
             (case rest of b1 # r1 \<Rightarrow> if inRange 128 191 b1 then 2 else 0 | _ \<Rightarrow> 0)
           else if inRange 224 239 b0 then
             (case rest of
                b1 # b2 # r2 \<Rightarrow>
                  if inRange (if b0 = CHR 0xE0 then 160 else 128)
                       (if b0 = CHR 0xED then 159 else 191) b1
                     \<and> inRange 128 191 b2
                  then 3 else 0
              | _ \<Rightarrow> 0)
           else if inRange 240 244 b0 then
             (case rest of
                b1 # b2 # b3 # r3 \<Rightarrow>
                  if inRange (if b0 = CHR 0xF0 then 144 else 128)
                       (if b0 = CHR 0xF4 then 143 else 191) b1
                     \<and> inRange 128 191 b2 \<and> inRange 128 191 b3
                  then 4 else 0
              | _ \<Rightarrow> 0)
           else 0))"

text \<open>
  The loop of \<^verbatim>\<open>appendString\<close> over the bytes: a byte below 0x80 is copied or escaped,
  a byte that starts no valid encoding is replaced by \<^verbatim>\<open>\ufffd\<close>, the separators U+2028
  and U+2029 are written as \<^verbatim>\<open>\u2028\<close> and \<^verbatim>\<open>\u2029\<close>, and every other encoded
  character is copied.
\<close>

function escapeBytes :: "string \<Rightarrow> string" where
  "escapeBytes [] = []"
| "escapeBytes (c # cs) =
     (if (of_char c :: nat) < 128 then escapeByte c @ escapeBytes cs
      else if runeLen (c # cs) = 0 then
        [CHR 0x5C, CHR ''u'', CHR ''f'', CHR ''f'', CHR ''f'', CHR ''d''] @ escapeBytes cs
      else if take 3 (c # cs) = [CHR 0xE2, CHR 0x80, CHR 0xA8] then
        [CHR 0x5C, CHR ''u'', CHR ''2'', CHR ''0'', CHR ''2'', CHR ''8''] @ escapeBytes (drop 2 cs)
      else if take 3 (c # cs) = [CHR 0xE2, CHR 0x80, CHR 0xA9] then
        [CHR 0x5C, CHR ''u'', CHR ''2'', CHR ''0'', CHR ''2'', CHR ''9''] @ escapeBytes (drop 2 cs)
      else c # take (runeLen (c # cs) - 1) cs @ escapeBytes (drop (runeLen (c # cs) - 1) cs))"
  by pat_completeness auto
termination
  by (relation "measure length") auto

definition appendString :: "string \<Rightarrow> string" where
  "appendString s = CHR 0x22 # escapeBytes s @ [CHR 0x22]"

fun bytesLess :: "string \<Rightarrow> string \<Rightarrow> bool" where
  "bytesLess a [] = False"
| "bytesLess [] (y # b) = True"
| "bytesLess (x # a) (y # b) =
     ((of_char x :: nat) < of_char y \<or> (x = y \<and> bytesLess a b))"

fun insertByKey :: "string \<times> 'a \<Rightarrow> (string \<times> 'a) list \<Rightarrow> (string \<times> 'a) list" where
  "insertByKey kv [] = [kv]"
| "insertByKey kv (y # ys) =
     (if bytesLess (fst kv) (fst y) then kv # y # ys else y # insertByKey kv ys)"

fun sortByKey :: "(string \<times> 'a) list \<Rightarrow> (string \<times> 'a) list" where
  "sortByKey [] = []"
| "sortByKey (kv # kvs) = insertByKey kv (sortByKey kvs)"

fun joinComma :: "string list \<Rightarrow> string" where
  "joinComma [] = []"
| "joinComma [s] = s"
| "joinComma (s # t # ss) = s @ '','' @ joinComma (t # ss)"

fun marshal :: "json \<Rightarrow> string" where
  "marshal JNull = ''null''"
| "marshal (JBool b) = (if b then ''true'' else ''false'')"
| "marshal (JNum i) = Itoa i"
| "marshal (JStr s) = appendString s"
| "marshal (JArr xs) = ''['' @ joinComma (map marshal xs) @ '']''"
| "marshal (JObj kvs) =
     ''{'' @ joinComma (map snd (sortByKey
              (map (\<lambda>kv. (fst kv, appendString (fst kv) @ '':'' @ marshal (snd kv))) kvs)))
       @ ''}''"

text \<open>
  \<^verbatim>\<open>sse\<close>: for each event the line \<^verbatim>\<open>event: <kind>\<close>, where the kind is the string
  under the key \<^verbatim>\<open>type\<close> (empty when there is none), then either a bare newline, when
  the map has one entry, or the line \<^verbatim>\<open>data: <payload>\<close> and a blank line.
\<close>

fun sse :: "jmap list \<Rightarrow> string" where
  "sse [] = []"
| "sse (ev # events) =
     (let kind = (case map_of ev ''type'' of Some (JStr k) \<Rightarrow> k | _ \<Rightarrow> [])
      in ''event: '' @ kind @ [LF] @
         (if length ev = 1 then [LF]
          else ''data: '' @ marshal (JObj ev) @ [LF, LF]))
     @ sse events"

text \<open>
  The frame of the specification: an event-kind line, a data line when there is a
  payload, a blank line. \<open>kindOf\<close> is the kind of an event, \<open>carriesPayload\<close> says that
  it has an entry beside its kind.
\<close>

definition frame :: "string \<Rightarrow> string option \<Rightarrow> string" where
  "frame kind payload =
     ''event: '' @ kind @ [LF] @
     (case payload of None \<Rightarrow> [] | Some d \<Rightarrow> ''data: '' @ d @ [LF]) @ [LF]"

definition kindOf :: "jmap \<Rightarrow> string" where
  "kindOf ev = (case map_of ev ''type'' of Some (JStr k) \<Rightarrow> k | _ \<Rightarrow> [])"

definition carriesPayload :: "jmap \<Rightarrow> bool" where
  "carriesPayload ev \<longleftrightarrow> list_ex (\<lambda>k. k \<noteq> ''type'') (map fst ev)"

text \<open>\<^verbatim>\<open>evResponseCreated(id)\<close>, and the completed event of the round-trip property.\<close>

definition evResponseCreated :: "string \<Rightarrow> jmap" where
  "evResponseCreated ident =
     [(''type'', JStr ''response.created''), (''response'', JObj [(''id'', JStr ident)])]"

definition evCompletedBare :: "string \<Rightarrow> jmap" where
  "evCompletedBare ident =
     [(''type'', JStr ''response.completed''), (''response'', JObj [(''id'', JStr ident)])]"

section \<open>A generic client of the event stream\<close>

text \<open>
  Modelled from the spec: the generic SSE client of the round-trip property, which is not
  among the sources. It reads the wire shape the specification gives: a frame is a
  line \<^verbatim>\<open>event: <kind>\<close>, optionally a line \<^verbatim>\<open>data: <json>\<close>, and a blank line. The
  stream is cut into lines; a line sets the field named before its first colon (one
  space after the colon is dropped), a blank line closes the frame. The data of a frame
  is then read as JSON by a recursive-descent parser for the values of the model
  (integers are the only numbers). The parser takes fuel, the length of the text plus
  one; \<open>None\<close> is a text it does not accept.
\<close>

fun splitLines :: "string \<Rightarrow> string \<Rightarrow> string list" where
  "splitLines acc [] = (if acc = [] then [] else [rev acc])"
| "splitLines acc (c # cs) =
     (if c = LF then rev acc # splitLines [] cs else splitLines (c # acc) cs)"

definition fieldValue :: "string \<Rightarrow> string \<Rightarrow> string option" where
  "fieldValue name line =
     (if take (length name + 1) line = name @ '':'' then
        (let v = drop (length name + 1) line
         in Some (if v \<noteq> [] \<and> hd v = CHR '' '' then tl v else v))
      else None)"

fun sseFrames :: "string \<Rightarrow> string option \<Rightarrow> bool \<Rightarrow> string list \<Rightarrow> (string \<times> string option) list" where
  "sseFrames kind payload started [] = []"
| "sseFrames kind payload started (line # lines) =
     (if line = [] then
        (if started then (kind, payload) # sseFrames [] None False lines
         else sseFrames [] None False lines)
      else (case fieldValue ''event'' line of
              Some v \<Rightarrow> sseFrames v payload True lines
            | None \<Rightarrow>
                (case fieldValue ''data'' line of
                   Some v \<Rightarrow>
                     sseFrames kind
                       (Some (case payload of None \<Rightarrow> v | Some d \<Rightarrow> d @ [LF] @ v)) True lines
                 | None \<Rightarrow> sseFrames kind payload started lines)))"

definition isSpace :: "char \<Rightarrow> bool" where
  "isSpace c \<longleftrightarrow> c = CHR '' '' \<or> c = CHR 0x09 \<or> c = CHR 0x0A \<or> c = CHR 0x0D"

fun skipWs :: "string \<Rightarrow> string" where
  "skipWs [] = []"
| "skipWs (c # cs) = (if isSpace c then skipWs cs else c # cs)"

definition hexVal :: "char \<Rightarrow> nat option" where
  "hexVal c =
     (let n = (of_char c :: nat)
      in if 48 \<le> n \<and> n \<le> 57 then Some (n - 48)
         else if 97 \<le> n \<and> n \<le> 102 then Some (n - 87)
         else if 65 \<le> n \<and> n \<le> 70 then Some (n - 55)
         else None)"

definition utf8Encode :: "nat \<Rightarrow> string" where
  "utf8Encode n =
     (if n < 128 then [char_of n]
      else if n < 2048 then [char_of (192 + n div 64), char_of (128 + n mod 64)]
      else [char_of (224 + n div 4096), char_of (128 + (n div 64) mod 64),
            char_of (128 + n mod 64)])"

fun parseStringBody :: "string \<Rightarrow> string \<Rightarrow> (string \<times> string) option" where
  "parseStringBody acc [] = None"
| "parseStringBody acc [c] = (if c = CHR 0x22 then Some (rev acc, []) else None)"
| "parseStringBody acc (c # e # cs) =
     (if c = CHR 0x22 then Some (rev acc, e # cs)
      else if c \<noteq> CHR 0x5C then parseStringBody (c # acc) (e # cs)
      else if e = CHR 0x22 \<or> e = CHR 0x5C \<or> e = CHR ''/'' then parseStringBody (e # acc) cs
      else if e = CHR ''b'' then parseStringBody (CHR 0x08 # acc) cs
      else if e = CHR ''f'' then parseStringBody (CHR 0x0C # acc) cs
      else if e = CHR ''n'' then parseStringBody (CHR 0x0A # acc) cs
      else if e = CHR ''r'' then parseStringBody (CHR 0x0D # acc) cs
      else if e = CHR ''t'' then parseStringBody (CHR 0x09 # acc) cs
      else if e = CHR ''u'' then
        (case map hexVal (take 4 cs) of
           [Some a, Some b, Some c1, Some d] \<Rightarrow>
             parseStringBody (rev (utf8Encode (((a * 16 + b) * 16 + c1) * 16 + d)) @ acc)
               (drop 4 cs)
         | _ \<Rightarrow> None)
      else None)"

definition parseNumber :: "string \<Rightarrow> (json \<times> string) option" where
  "parseNumber s =
     (let body = (if s \<noteq> [] \<and> hd s = CHR ''-'' then tl s else s);
          ds = takeWhile isDigit body;
          rest = dropWhile isDigit body
      in if ds = [] then None
         else (let n = foldl (\<lambda>a c. a * 10 + int (digitVal c)) 0 ds
               in Some (JNum (if s \<noteq> [] \<and> hd s = CHR ''-'' then - n else n), rest)))"

fun parseValue :: "nat \<Rightarrow> string \<Rightarrow> (json \<times> string) option"
  and parseElements :: "nat \<Rightarrow> string \<Rightarrow> (json list \<times> string) option"
  and parseMembers :: "nat \<Rightarrow> string \<Rightarrow> ((string \<times> json) list \<times> string) option" where
  "parseValue 0 s = None"
| "parseValue (Suc n) s =
     (case skipWs s of
        [] \<Rightarrow> None
      | c # cs \<Rightarrow>
          if c = CHR ''{'' then
            (if take 1 (skipWs cs) = ''}'' then Some (JObj [], drop 1 (skipWs cs))
             else (case parseMembers n cs of
                     None \<Rightarrow> None
                   | Some (kvs, r) \<Rightarrow> Some (JObj kvs, r)))
          else if c = CHR ''['' then
            (if take 1 (skipWs cs) = '']'' then Some (JArr [], drop 1 (skipWs cs))
             else (case parseElements n cs of
                     None \<Rightarrow> None
                   | Some (xs, r) \<Rightarrow> Some (JArr xs, r)))
          else if c = CHR 0x22 then
            (case parseStringBody [] cs of
               None \<Rightarrow> None
             | Some (str, r) \<Rightarrow> Some (JStr str, r))
          else if take 4 (c # cs) = ''null'' then Some (JNull, drop 4 (c # cs))
          else if take 4 (c # cs) = ''true'' then Some (JBool True, drop 4 (c # cs))
          else if take 5 (c # cs) = ''false'' then Some (JBool False, drop 5 (c # cs))
          else parseNumber (c # cs))"
| "parseElements 0 s = None"
| "parseElements (Suc n) s =
     (case parseValue n s of
        None \<Rightarrow> None
      | Some (v, r) \<Rightarrow>
          (case skipWs r of
             [] \<Rightarrow> None
           | c # cs \<Rightarrow>
               if c = CHR '','' then
                 (case parseElements n cs of
                    None \<Rightarrow> None
                  | Some (xs, r1) \<Rightarrow> Some (v # xs, r1))
               else if c = CHR '']'' then Some ([v], cs)
               else None))"
| "parseMembers 0 s = None"
| "parseMembers (Suc n) s =
     (case skipWs s of
        [] \<Rightarrow> None
      | q # cs \<Rightarrow>
          if q \<noteq> CHR 0x22 then None
          else (case parseStringBody [] cs of
                  None \<Rightarrow> None
                | Some (k, r) \<Rightarrow>
                    (case skipWs r of
                       [] \<Rightarrow> None
                     | colon # r1 \<Rightarrow>
                         if colon \<noteq> CHR '':'' then None
                         else (case parseValue n r1 of
                                 None \<Rightarrow> None
                               | Some (v, r2) \<Rightarrow>
                                   (case skipWs r2 of
                                      [] \<Rightarrow> None
                                    | c # r3 \<Rightarrow>
                                        if c = CHR '','' then
                                          (case parseMembers n r3 of
                                             None \<Rightarrow> None
                                           | Some (kvs, r4) \<Rightarrow> Some ((k, v) # kvs, r4))
                                        else if c = CHR ''}'' then Some ([(k, v)], r3)
                                        else None)))))"

definition jsonParse :: "string \<Rightarrow> json option" where
  "jsonParse s =
     (case parseValue (length s + 1) s of
        None \<Rightarrow> None
      | Some (v, r) \<Rightarrow> if skipWs r = [] then Some v else None)"

definition clientEvents :: "string \<Rightarrow> (string \<times> json option) list" where
  "clientEvents stream =
     map (\<lambda>frame. (fst frame, case snd frame of None \<Rightarrow> None | Some d \<Rightarrow> jsonParse d))
       (sseFrames [] None False (splitLines [] stream))"

section \<open>Example inputs\<close>

text \<open>
  A decoder for the examples: it rejects the bytes \<^verbatim>\<open>not json\<close> and reads any other
  content as the \<^verbatim>\<open>seq\<close> field of a record whose hook fired as expected. The theorems
  hold for every decoder; the examples need one.
\<close>

definition exampleUnmarshal :: "string \<Rightarrow> string + hookCallJSON" where
  "exampleUnmarshal b =
     (if b = ''not json'' then Inl ''invalid character''
      else Inr \<lparr>seq = b, expected = ''turn_started'', event = ''turn_started'',
                submission_id = ''sub-1''\<rparr>)"

text \<open>
  A listing in the order 2, 0, 1, with a temporary file of the hook script and a
  directory beside the records.
\<close>

definition exampleListing :: "dirEntry list" where
  "exampleListing =
     [\<lparr>Name = ''2.json'', IsDir = False, Data = Inr ''2''\<rparr>,
      \<lparr>Name = ''0.json'', IsDir = False, Data = Inr ''0''\<rparr>,
      \<lparr>Name = ''3.json.tmp.77'', IsDir = False, Data = Inr ''not json''\<rparr>,
      \<lparr>Name = ''1.json'', IsDir = False, Data = Inr ''1''\<rparr>,
      \<lparr>Name = ''4.json'', IsDir = True, Data = Inl ''is a directory''\<rparr>]"

definition exampleCall :: "int \<Rightarrow> string \<Rightarrow> string \<Rightarrow> hookCall" where
  "exampleCall n s path =
     \<lparr>Seq = n, SeqStr = s, Expected = ''turn_started'', Event = ''turn_started'',
      SubmissionID = ''sub-1'', Path = path\<rparr>"

text \<open>A listing in which the second and the third record are malformed.\<close>

definition malformedListing :: "dirEntry list" where
  "malformedListing =
     [\<lparr>Name = ''0.json'', IsDir = False, Data = Inr ''0''\<rparr>,
      \<lparr>Name = ''1.json'', IsDir = False, Data = Inr ''not json''\<rparr>,
      \<lparr>Name = ''2.json'', IsDir = False, Data = Inr ''not json''\<rparr>]"

text \<open>
  The stability scenario: two records at the first poll, four from 50 ms on; polls at
  0, 50, 75, 200 and 275 ms, the clock read once per poll.
\<close>

definition examplePoll :: "int \<Rightarrow> string list \<Rightarrow> poll" where
  "examplePoll ms names =
     \<lparr>listing = Inr (map (\<lambda>name. \<lparr>Name = name @ ''.json'', IsDir = False, Data = Inr name\<rparr>) names),
      nowStable = ms * Millisecond, nowDeadline = ms * Millisecond\<rparr>"

definition examplePolls :: "poll list" where
  "examplePolls =
     [examplePoll 0 [''0'', ''1''],
      examplePoll 50 [''0'', ''1'', ''2'', ''3''],
      examplePoll 75 [''0'', ''1'', ''2'', ''3''],
      examplePoll 200 [''0'', ''1'', ''2'', ''3''],
      examplePoll 275 [''0'', ''1'', ''2'', ''3'']]"




text \<open>
  Five records that violate all four checks against the names \<^verbatim>\<open>main\<close> expects: the
  first reports sequence 9 from file 0 and an event other than the expected one, and a
  fifth record follows the four awaited.
\<close>

definition faultyCalls :: "hookCall list" where
  "faultyCalls =
     [\<lparr>Seq = 0, SeqStr = ''9'', Expected = ''turn_started'', Event = ''turn_complete'',
       SubmissionID = ''sub-1'', Path = ''/calls/0.json''\<rparr>,
      \<lparr>Seq = 1, SeqStr = ''1'', Expected = ''exec_command_begin'',
       Event = ''exec_command_begin'', SubmissionID = ''sub-1'', Path = ''/calls/1.json''\<rparr>,
      \<lparr>Seq = 2, SeqStr = ''2'', Expected = ''exec_command_end'',
       Event = ''exec_command_end'', SubmissionID = ''sub-1'', Path = ''/calls/2.json''\<rparr>,
      \<lparr>Seq = 3, SeqStr = ''3'', Expected = ''turn_complete'', Event = ''turn_complete'',
       SubmissionID = ''sub-1'', Path = ''/calls/3.json''\<rparr>,
      \<lparr>Seq = 4, SeqStr = ''4'', Expected = ''turn_complete'', Event = ''turn_complete'',
       SubmissionID = ''sub-1'', Path = ''/calls/4.json''\<rparr>]"
section \<open>Properties of the stub server\<close>

lemma isCreateResponse_not_GET: "isCreateResponse r \<Longrightarrow> Method r \<noteq> ''GET''"
  by (auto simp: isCreateResponse_def)

lemma ServeHTTP_create:
  assumes "isCreateResponse r"
  shows "ServeHTTP um s r =
     (let parsed = fst (um (Body r));
          s1 = (if parsed \<noteq> [] then s\<lparr>responseReqs := responseReqs s @ [parsed]\<rparr> else s)
      in case sseQueue s of
           [] \<Rightarrow> (exhausted, s1)
         | body # rest \<Rightarrow> (streamed body, s1\<lparr>sseQueue := rest\<rparr>))"
proof -
  from assms have m: "Method r = ''POST''" and p: "HasSuffix (URLPath r) ''/responses''"
    by (simp_all add: isCreateResponse_def)
  show ?thesis
    unfolding ServeHTTP_def using m p
    by (simp add: Let_def popSSE_def recordResponseRequest_def exhausted_def streamed_def
        split: list.split)
qed

lemma ServeHTTP_create_response:
  "isCreateResponse r \<Longrightarrow>
   fst (ServeHTTP um s r) = (case sseQueue s of [] \<Rightarrow> exhausted | body # rest \<Rightarrow> streamed body)"
  by (simp add: ServeHTTP_create Let_def split: list.split)

lemma ServeHTTP_create_queue:
  "isCreateResponse r \<Longrightarrow> sseQueue (snd (ServeHTTP um s r)) = drop 1 (sseQueue s)"
  by (simp add: ServeHTTP_create Let_def split: list.split)


lemma serveAll_Cons_fst:
  "fst (serveAll um s (r # rs)) =
     fst (ServeHTTP um s r) # fst (serveAll um (snd (ServeHTTP um s r)) rs)"
  by (simp add: Let_def split: prod.split)

lemma serveAll_Cons_snd:
  "snd (serveAll um s (r # rs)) = snd (serveAll um (snd (ServeHTTP um s r)) rs)"
  by (simp add: Let_def split: prod.split)

lemma serveAll_create:
  "\<forall>r \<in> set rs. isCreateResponse r \<Longrightarrow>
   fst (serveAll um s rs) =
     map streamed (take (length rs) (sseQueue s)) @
     replicate (length rs - length (sseQueue s)) exhausted \<and>
   sseQueue (snd (serveAll um s rs)) = drop (length rs) (sseQueue s)"
proof (induction rs arbitrary: s)
  case Nil
  then show ?case by simp
next
  case (Cons r rs)
  then have cr: "isCreateResponse r" and all: "\<forall>r \<in> set rs. isCreateResponse r" by simp_all
  let ?s1 = "snd (ServeHTTP um s r)"
  note ih = Cons.IH[OF all, of ?s1]
  show ?case
  proof (cases "sseQueue s")
    case Nil
    with ih cr show ?thesis
      by (simp add: serveAll_Cons_fst serveAll_Cons_snd ServeHTTP_create_response
          ServeHTTP_create_queue del: serveAll.simps)
  next
    case (Cons b rest)
    with ih cr show ?thesis
      by (simp add: serveAll_Cons_fst serveAll_Cons_snd ServeHTTP_create_response
          ServeHTTP_create_queue del: serveAll.simps)
  qed
qed

text \<open>
  C4. A server provisioned with N exchanges answers N+1 create-response requests, issued
  one after the other, with the N exchanges in queue order, each once, and then with the
  exhaustion error: status 500 and the diagnostic body.
\<close>

theorem queue_fifo_then_exhausted:
  assumes "\<forall>r \<in> set rs. isCreateResponse r"
    and "length rs = Suc (length (sseQueue s))"
  shows "fst (serveAll um s rs) = map streamed (sseQueue s) @ [exhausted]
     \<and> status exhausted = 500
     \<and> written exhausted = ''no queued SSE responses'' @ [CHR 0x0A]
     \<and> sseQueue (snd (serveAll um s rs)) = []"
  using serveAll_create[OF assms(1), of um s] assms(2)
  by (simp add: exhausted_def http_Error_def StatusInternalServerError_def)

theorem queue_fifo_then_exhausted_witness:
  "fst (serveAll (\<lambda>raw. ([], None)) \<lparr>sseQueue = [''a'', ''b''], responseReqs = []\<rparr>
     [\<lparr>Method = ''POST'', URLPath = ''/v1/responses'', Body = ''x''\<rparr>,
      \<lparr>Method = ''POST'', URLPath = ''/v1/responses'', Body = ''y''\<rparr>,
      \<lparr>Method = ''POST'', URLPath = ''/v1/responses'', Body = ''z''\<rparr>])
   = [streamed ''a'', streamed ''b'', exhausted]"
  using queue_fifo_then_exhausted[of
      "[\<lparr>Method = ''POST'', URLPath = ''/v1/responses'', Body = ''x''\<rparr>,
        \<lparr>Method = ''POST'', URLPath = ''/v1/responses'', Body = ''y''\<rparr>,
        \<lparr>Method = ''POST'', URLPath = ''/v1/responses'', Body = ''z''\<rparr>]"
      "\<lparr>sseQueue = [''a'', ''b''], responseReqs = []\<rparr>" "\<lambda>raw. ([], None)"]
  by (simp add: isCreateResponse_def HasSuffix_def)



text \<open>
  C9. A create-response request whose body decodes to a non-empty payload, arriving at a
  server whose queue is empty, is answered with the exhaustion error, and the log has
  grown by the payload all the same: the pop runs on the state that already holds it.
\<close>

theorem exhaustion_after_recording:
  assumes "isCreateResponse r"
    and "fst (um (Body r)) = parsed"
    and "parsed \<noteq> []"
    and "sseQueue s = []"
  shows "ServeHTTP um s r = (exhausted, snd (popSSE (recordResponseRequest parsed s)))
     \<and> snd (popSSE (recordResponseRequest parsed s)) =
         s\<lparr>responseReqs := responseReqs s @ [parsed]\<rparr>
     \<and> responseReqs (snd (ServeHTTP um s r)) = responseReqs s @ [parsed]
     \<and> snd (ServeHTTP um s r) \<noteq> s"
proof -
  have st: "snd (popSSE (recordResponseRequest parsed s)) =
      s\<lparr>responseReqs := responseReqs s @ [parsed]\<rparr>"
    using assms(4) by (simp add: popSSE_def recordResponseRequest_def)
  have run: "ServeHTTP um s r = (exhausted, s\<lparr>responseReqs := responseReqs s @ [parsed]\<rparr>)"
    using assms by (simp add: ServeHTTP_create Let_def)
  have "responseReqs (s\<lparr>responseReqs := responseReqs s @ [parsed]\<rparr>) \<noteq> responseReqs s"
    by simp
  then have "s\<lparr>responseReqs := responseReqs s @ [parsed]\<rparr> \<noteq> s"
    by metis
  with st run show ?thesis by simp
qed

theorem exhaustion_after_recording_witness:
  "ServeHTTP (\<lambda>raw. ([(''model'', JStr ''m'')], None))
       \<lparr>sseQueue = [], responseReqs = []\<rparr>
       \<lparr>Method = ''POST'', URLPath = ''/v1/responses'', Body = ''{\"model\":\"m\"}''\<rparr>
   = (exhausted, \<lparr>sseQueue = [], responseReqs = [[(''model'', JStr ''m'')]]\<rparr>)"
  using exhaustion_after_recording[of
      "\<lparr>Method = ''POST'', URLPath = ''/v1/responses'', Body = ''{\"model\":\"m\"}''\<rparr>"
      "\<lambda>raw. ([(''model'', JStr ''m'')], None)" "[(''model'', JStr ''m'')]"
      "\<lparr>sseQueue = [], responseReqs = []\<rparr>"]
  by (simp add: isCreateResponse_def HasSuffix_def popSSE_def recordResponseRequest_def)

section \<open>Properties of the validator\<close>

lemma equalFrom_eq: "length a = length b \<Longrightarrow> equalFrom a b \<longleftrightarrow> a = b"
  by (induction a b rule: equalFrom.induct) auto

lemma equalStrings_eq: "equalStrings a b \<longleftrightarrow> a = b"
  by (auto simp: equalStrings_def equalFrom_eq)

lemma checkCalls_find:
  "checkCalls calls got =
     (case find (\<lambda>c. seqBad c \<or> expectedBad c) calls of
        Some c \<Rightarrow>
          Inl (if seqBad c then SeqMismatch (Seq c) (SeqStr c) (Path c)
               else ExpectedEventMismatch (Expected c) (Event c) (Seq c) (Path c))
      | None \<Rightarrow> Inr (got @ map Event calls))"
  by (induction calls arbitrary: got) (auto simp: seqBad_def expectedBad_def split: option.split)

lemma validate_closed_form:
  "validate calls want =
     (case find (\<lambda>c. seqBad c \<or> expectedBad c) calls of
        Some c \<Rightarrow>
          Inl (if seqBad c then SeqMismatch (Seq c) (SeqStr c) (Path c)
               else ExpectedEventMismatch (Expected c) (Event c) (Seq c) (Path c))
      | None \<Rightarrow>
          if map Event calls \<noteq> want then Inl (UnexpectedSequence (map Event calls) want)
          else Inr ())"
  by (auto simp: validate_def checkCalls_find equalStrings_eq split: option.split)

lemma find_None_bad:
  "find (\<lambda>c. seqBad c \<or> expectedBad c) calls = None \<longleftrightarrow>
     \<not> list_ex seqBad calls \<and> \<not> list_ex expectedBad calls"
  by (auto simp: find_None_iff list_ex_iff)

lemma validate_ok_iff: "validate calls want = Inr () \<longleftrightarrow> violatedChecks calls want = []"
proof (cases "find (\<lambda>c. seqBad c \<or> expectedBad c) calls")
  case None
  then have "\<not> list_ex seqBad calls" "\<not> list_ex expectedBad calls"
    by (simp_all add: find_None_bad)
  with None show ?thesis
    by (auto simp: validate_closed_form violatedChecks_def)
next
  case (Some c)
  then have "list_ex seqBad calls \<or> list_ex expectedBad calls"
    using find_None_bad[of calls] by auto
  with Some show ?thesis
    by (auto simp: validate_closed_form violatedChecks_def)
qed

lemma reported_subset_violated:
  "set (reportedChecks calls want) \<subseteq> set (violatedChecks calls want)"
proof (cases "find (\<lambda>c. seqBad c \<or> expectedBad c) calls")
  case None
  then show ?thesis
    by (auto simp: reportedChecks_def validate_closed_form violatedChecks_def)
next
  case (Some c)
  then have "c \<in> set calls" "seqBad c \<or> expectedBad c"
    by (auto simp: find_Some_iff)
  then have "(seqBad c \<longrightarrow> list_ex seqBad calls) \<and> (\<not> seqBad c \<longrightarrow> list_ex expectedBad calls)"
    by (auto simp: list_ex_iff)
  with Some show ?thesis
    by (auto simp: reportedChecks_def validate_closed_form violatedChecks_def)
qed

lemma reported_at_most_one: "length (reportedChecks calls want) \<le> 1"
  by (simp add: reportedChecks_def split: sum.split)

lemma count_never_reported: "CountCheck \<notin> set (reportedChecks calls want)"
  by (auto simp: reportedChecks_def validate_closed_form split: option.split sum.split if_splits)

lemmas eval_Itoa = Itoa_def natDigits.simps digitChar_def

lemmas eval_Atoi = Atoi_def ParseUint_def isDigit_def digitVal_def maxUint64_def
  cutoffInt64_def Let_def

lemmas eval_stem = stem_def TrimSuffix_def Ext_def HasSuffix_def

lemmas eval_Join = Join_def Clean_def

text \<open>
  C1, as stated: every violated check is reported. It fails on five records that violate
  all four checks against the names \<^verbatim>\<open>main\<close> expects (sequence string 9 in file 0,
  expected and observed event different in that record, so other names than expected,
  and five records where four are expected): the run reports the sequence mismatch and
  nothing else.
\<close>

theorem all_violations_reported_counterexample:
  "violatedChecks faultyCalls mainWant = [SeqCheck, ExpectedEventCheck, OrderCheck, CountCheck]
   \<and> reportedChecks faultyCalls mainWant = [SeqCheck]
   \<and> validate faultyCalls mainWant = Inl (SeqMismatch 0 ''9'' ''/calls/0.json'')"
  by (simp add: violatedChecks_def reportedChecks_def validate_def seqBad_def expectedBad_def
      faultyCalls_def mainWant_def eval_Itoa)

text \<open>
  C1, amended. The validator stops at the first violated check and reports that one
  violation: the records are visited in order, for each the sequence cross-check and then
  the expected/event check, and after the last record the observed names are compared with
  the expected ones. It reports success exactly when none of the four checks is violated;
  what it reports is a check the input does violate; and the count check is never the one
  reported, since lists of different lengths fail the comparison of the names before it.
\<close>

theorem validate_reports_first_violation:
  "validate calls want =
     (case find (\<lambda>c. seqBad c \<or> expectedBad c) calls of
        Some c \<Rightarrow>
          Inl (if seqBad c then SeqMismatch (Seq c) (SeqStr c) (Path c)
               else ExpectedEventMismatch (Expected c) (Event c) (Seq c) (Path c))
      | None \<Rightarrow>
          if map Event calls \<noteq> want then Inl (UnexpectedSequence (map Event calls) want)
          else Inr ())
   \<and> (validate calls want = Inr () \<longleftrightarrow> violatedChecks calls want = [])
   \<and> length (reportedChecks calls want) \<le> 1
   \<and> set (reportedChecks calls want) \<subseteq> set (violatedChecks calls want)
   \<and> CountCheck \<notin> set (reportedChecks calls want)"
  using validate_closed_form[of calls want] validate_ok_iff[of calls want]
    reported_at_most_one[of calls want] reported_subset_violated[of calls want]
    count_never_reported[of calls want]
  by blast

theorem validate_reports_first_violation_witness:
  "validate
     [\<lparr>Seq = 0, SeqStr = ''0'', Expected = ''turn_started'', Event = ''turn_started'',
       SubmissionID = ''sub-1'', Path = ''/calls/0.json''\<rparr>,
      \<lparr>Seq = 1, SeqStr = ''1'', Expected = ''turn_complete'', Event = ''exec_command_end'',
       SubmissionID = ''sub-1'', Path = ''/calls/1.json''\<rparr>,
      \<lparr>Seq = 2, SeqStr = ''7'', Expected = ''turn_complete'', Event = ''turn_complete'',
       SubmissionID = ''sub-1'', Path = ''/calls/2.json''\<rparr>]
     [''turn_started'', ''turn_complete'']
   = Inl (ExpectedEventMismatch ''turn_complete'' ''exec_command_end'' 1 ''/calls/1.json'')"
  using validate_reports_first_violation[of
     "[\<lparr>Seq = 0, SeqStr = ''0'', Expected = ''turn_started'', Event = ''turn_started'',
        SubmissionID = ''sub-1'', Path = ''/calls/0.json''\<rparr>,
       \<lparr>Seq = 1, SeqStr = ''1'', Expected = ''turn_complete'', Event = ''exec_command_end'',
        SubmissionID = ''sub-1'', Path = ''/calls/1.json''\<rparr>,
       \<lparr>Seq = 2, SeqStr = ''7'', Expected = ''turn_complete'', Event = ''turn_complete'',
        SubmissionID = ''sub-1'', Path = ''/calls/2.json''\<rparr>]"
     "[''turn_started'', ''turn_complete'']"]
  by (simp add: seqBad_def expectedBad_def eval_Itoa)

section \<open>Concurrent requests to the stub server\<close>














section \<open>Properties of the collector scan\<close>

lemma readEntries_Cons:
  "readEntries um dir (ent # ents) calls =
     (if selected ent then
        (case entryResult um dir ent of
           Inl err \<Rightarrow> Inl err
         | Inr c \<Rightarrow> readEntries um dir ents (calls @ [c]))
      else readEntries um dir ents calls)"
  by (simp add: selected_def entryResult_def seqOf_def stem_def Let_def split: sum.split)

lemma readEntries_ok:
  "\<forall>ent \<in> set ents. selected ent \<longrightarrow> (\<exists>c. entryResult um dir ent = Inr c) \<Longrightarrow>
   \<exists>cs. readEntries um dir ents calls = Inr (calls @ cs)
      \<and> map Inr cs = map (entryResult um dir) (filter selected ents)"
proof (induction ents arbitrary: calls)
  case Nil
  then show ?case by simp
next
  case (Cons ent ents)
  then have rest: "\<forall>e \<in> set ents. selected e \<longrightarrow> (\<exists>c. entryResult um dir e = Inr c)"
    by simp
  show ?case
  proof (cases "selected ent")
    case False
    with Cons.IH[OF rest, of calls] show ?thesis
      by (simp add: readEntries_Cons del: readEntries.simps)
  next
    case True
    with Cons.prems obtain c where c: "entryResult um dir ent = Inr c" by auto
    from Cons.IH[OF rest, of "calls @ [c]"] obtain cs where
      "readEntries um dir ents (calls @ [c]) = Inr ((calls @ [c]) @ cs)"
      "map Inr cs = map (entryResult um dir) (filter selected ents)" by blast
    with True c show ?thesis
      by (intro exI[of _ "c # cs"]) (simp add: readEntries_Cons del: readEntries.simps)
  qed
qed

lemma readEntries_first_failure:
  assumes "\<forall>ent \<in> set pre. selected ent \<longrightarrow> (\<exists>c. entryResult um dir ent = Inr c)"
    and "selected bad" and "entryResult um dir bad = Inl err"
  shows "readEntries um dir (pre @ bad # post) calls = Inl err"
  using assms(1)
proof (induction pre arbitrary: calls)
  case Nil
  with assms(2,3) show ?case by (simp add: readEntries_Cons del: readEntries.simps)
next
  case (Cons ent pre)
  then have rest: "\<forall>e \<in> set pre. selected e \<longrightarrow> (\<exists>c. entryResult um dir e = Inr c)"
    by simp
  show ?case
  proof (cases "selected ent")
    case False
    with Cons.IH[OF rest] show ?thesis
      by (simp add: readEntries_Cons del: readEntries.simps)
  next
    case True
    with Cons.prems obtain c where c: "entryResult um dir ent = Inr c" by auto
    with True Cons.IH[OF rest] show ?thesis
      by (simp add: readEntries_Cons del: readEntries.simps)
  qed
qed

lemma first_failing_entry:
  assumes "\<exists>ent \<in> set ents. selected ent \<and> (\<exists>e. entryResult um dir ent = Inl e)"
  shows "\<exists>pre bad post err. ents = pre @ bad # post \<and> selected bad
      \<and> entryResult um dir bad = Inl err
      \<and> (\<forall>ent \<in> set pre. selected ent \<longrightarrow> (\<exists>c. entryResult um dir ent = Inr c))"
proof -
  let ?P = "\<lambda>ent. selected ent \<and> (\<exists>e. entryResult um dir ent = Inl e)"
  from assms have "\<exists>x \<in> set ents. ?P x" by simp
  from split_list_first_prop[OF this] obtain pre bad post where
    s: "ents = pre @ bad # post" "?P bad" "\<forall>y \<in> set pre. \<not> ?P y" by blast
  from s(2) obtain err where e: "entryResult um dir bad = Inl err" by blast
  have "\<forall>ent \<in> set pre. selected ent \<longrightarrow> (\<exists>c. entryResult um dir ent = Inr c)"
  proof (intro ballI impI)
    fix ent assume "ent \<in> set pre" "selected ent"
    with s(3) have "\<not> (\<exists>e. entryResult um dir ent = Inl e)" by blast
    then show "\<exists>c. entryResult um dir ent = Inr c"
      by (cases "entryResult um dir ent") auto
  qed
  with s e show ?thesis by blast
qed

lemma entryResult_Seq: "entryResult um dir ent = Inr c \<Longrightarrow> Seq c = seqOf ent \<and> Path c = Join dir (Name ent)"
  by (auto simp: entryResult_def split: sum.splits)

lemma entryResult_errorPath: "entryResult um dir ent = Inl err \<Longrightarrow> errorPath err = Join dir (Name ent)"
  by (auto simp: entryResult_def split: sum.splits)


lemma scan_ok:
  assumes "\<forall>ent \<in> set entries. selected ent \<longrightarrow> (\<exists>c. entryResult um dir ent = Inr c)"
  shows "\<exists>cs. readHookCallsOnce um dir (Inr entries) = Inr (sortBySeq cs)
      \<and> map Inr cs = map (entryResult um dir) (filter selected entries)"
  using readEntries_ok[OF assms, of "[]"] by (auto simp: readHookCallsOnce_def)

lemma records_Seq:
  assumes "map Inr cs = map (entryResult um dir) ents"
  shows "map Seq cs = map seqOf ents"
  using assms
proof (induction ents arbitrary: cs)
  case Nil
  then show ?case by simp
next
  case (Cons ent ents)
  then obtain c cs' where cs: "cs = c # cs'" by (cases cs) auto
  with Cons.prems have "entryResult um dir ent = Inr c" "map Inr cs' = map (entryResult um dir) ents"
    by simp_all
  with Cons.IH[of cs'] cs show ?case by (simp add: entryResult_Seq)
qed

lemma map_Inr_mset_eq:
  assumes "mset (map Inr xs) = mset (map Inr ys)"
  shows "mset xs = mset ys"
proof -
  note eq = assms[unfolded mset_map]
  show ?thesis
    by (rule injD[OF multiset.inj_map[OF inj_Inr] eq])
qed

lemma Atoi_nonempty: "Atoi s = Inr n \<Longrightarrow> s \<noteq> []"
  by (auto simp: Atoi_def)

lemmas eval_entry = selected_def entryResult_def seqOf_def exampleUnmarshal_def eval_Join

lemma example_listing_scan:
  "readHookCallsOnce exampleUnmarshal ''/calls'' (Inr exampleListing) =
     Inr [exampleCall 0 ''0'' ''/calls/0.json'', exampleCall 1 ''1'' ''/calls/1.json'',
          exampleCall 2 ''2'' ''/calls/2.json'']"
  by (simp add: readHookCallsOnce_def sortBySeq_def exampleListing_def exampleCall_def
      exampleUnmarshal_def eval_Join eval_stem eval_Atoi)

text \<open>
  C5. When every selected entry of the listing can be read and decodes, one scan returns
  exactly the records of the selected entries (the entries that are not directories and
  whose stem parses as an integer; every other entry is skipped), sorted by the number
  decoded from the file name. When these numbers are pairwise distinct, as the sequence
  numbers of one run are, the result is the same for every order of the listing. The
  listing 2.json, 0.json, a temporary file, 1.json, a directory gives the records 0, 1, 2.
\<close>

theorem scan_returns_selected_sorted:
  assumes "\<forall>ent \<in> set entries. selected ent \<longrightarrow> (\<exists>c. entryResult um dir ent = Inr c)"
  shows "(\<exists>calls. readHookCallsOnce um dir (Inr entries) = Inr calls
     \<and> mset (map Inr calls) = mset (map (entryResult um dir) (filter selected entries))
     \<and> sorted (map Seq calls)
     \<and> (distinct (map seqOf (filter selected entries)) \<longrightarrow>
          (\<forall>entries'. mset entries' = mset entries \<longrightarrow>
             readHookCallsOnce um dir (Inr entries') = Inr calls)))
     \<and> readHookCallsOnce exampleUnmarshal ''/calls'' (Inr exampleListing) =
         Inr [exampleCall 0 ''0'' ''/calls/0.json'', exampleCall 1 ''1'' ''/calls/1.json'',
              exampleCall 2 ''2'' ''/calls/2.json'']"
proof -
  from scan_ok[OF assms] obtain cs where
    run: "readHookCallsOnce um dir (Inr entries) = Inr (sortBySeq cs)" and
    cs: "map Inr cs = map (entryResult um dir) (filter selected entries)" by blast
  have m: "mset (map Inr (sortBySeq cs)) = mset (map (entryResult um dir) (filter selected entries))"
  proof -
    have "mset (map Inr cs) = mset (map (entryResult um dir) (filter selected entries))"
      using cs by simp
    then show ?thesis by (simp add: sortBySeq_def)
  qed
  have s: "sorted (map Seq (sortBySeq cs))"
    by (simp add: sortBySeq_def)
  have p: "readHookCallsOnce um dir (Inr entries') = Inr (sortBySeq cs)"
    if d: "distinct (map seqOf (filter selected entries))" and e: "mset entries' = mset entries"
    for entries'
  proof -
    from e have sets: "set entries' = set entries" by (rule mset_eq_setD)
    with assms have ok': "\<forall>ent \<in> set entries'. selected ent \<longrightarrow> (\<exists>c. entryResult um dir ent = Inr c)"
      by simp
    from scan_ok[OF ok'] obtain cs' where
      run': "readHookCallsOnce um dir (Inr entries') = Inr (sortBySeq cs')" and
      cs': "map Inr cs' = map (entryResult um dir) (filter selected entries')" by blast
    have "mset (filter selected entries') = mset (filter selected entries)"
      using e by simp
    then have "mset (map (entryResult um dir) (filter selected entries')) =
        mset (map (entryResult um dir) (filter selected entries))"
      by simp
    then have "mset (map Inr cs' :: (error + hookCall) list) = mset (map Inr cs)"
      by (simp only: cs cs')
    then have mm: "mset cs' = mset cs" by (rule map_Inr_mset_eq)
    have "distinct (map Seq cs)"
      using d records_Seq[OF cs] by simp
    then have inj: "inj_on Seq (set cs)" by (simp add: distinct_map)
    from mm have "set cs' = set cs" by (rule mset_eq_setD)
    with inj have inj': "inj_on Seq (set cs')" by simp
    have "sort_key Seq cs' = sort_key Seq cs"
      by (rule sort_key_inj_key_eq) (use mm inj' in simp_all)
    with run' show ?thesis by (simp add: sortBySeq_def)
  qed
  from run m s p have "\<exists>calls. readHookCallsOnce um dir (Inr entries) = Inr calls
     \<and> mset (map Inr calls) = mset (map (entryResult um dir) (filter selected entries))
     \<and> sorted (map Seq calls)
     \<and> (distinct (map seqOf (filter selected entries)) \<longrightarrow>
          (\<forall>entries'. mset entries' = mset entries \<longrightarrow>
             readHookCallsOnce um dir (Inr entries') = Inr calls))"
    by blast
  then show ?thesis using example_listing_scan by (rule conjI)
qed

theorem scan_returns_selected_sorted_witness:
  "\<exists>calls. readHookCallsOnce exampleUnmarshal ''/calls'' (Inr exampleListing) = Inr calls
     \<and> map Seq calls = [0, 1, 2]
     \<and> map Path calls = [''/calls/0.json'', ''/calls/1.json'', ''/calls/2.json'']
     \<and> (\<forall>entries'. mset entries' = mset exampleListing \<longrightarrow>
            readHookCallsOnce exampleUnmarshal ''/calls'' (Inr entries') = Inr calls)"
proof -
  have h: "\<forall>ent \<in> set exampleListing. selected ent \<longrightarrow>
      (\<exists>c. entryResult exampleUnmarshal ''/calls'' ent = Inr c)"
    by (simp add: exampleListing_def eval_entry eval_stem eval_Atoi)
  have d: "distinct (map seqOf (filter selected exampleListing))"
    by (simp add: exampleListing_def eval_entry eval_stem eval_Atoi)
  note ev = example_listing_scan
  from scan_returns_selected_sorted[OF h] d ev show ?thesis
    by (auto simp: exampleCall_def)
qed


text \<open>
  C7. When a file with an integer stem has content that fails to decode, the scan fails:
  with the error of the first selected entry of the listing that cannot be read or
  decoded, which names that file's path, and, when every selected entry can be read, with
  the parse error of the first malformed record. The polling loop returns this error at
  the poll that meets it, whatever its state and whatever polls would follow.
\<close>

theorem malformed_record_is_fatal:
  assumes "ent \<in> set entries" and "selected ent" and "Data ent = Inr b" and "um b = Inl cause"
  shows "\<exists>bad err. bad \<in> set entries \<and> selected bad \<and> entryResult um dir bad = Inl err
     \<and> errorPath err = Join dir (Name bad)
     \<and> readHookCallsOnce um dir (Inr entries) = Inl err
     \<and> (\<forall>want deadline lastCount stableSince t1 t2 later.
          listLoop um dir want deadline lastCount stableSince
            (\<lparr>listing = Inr entries, nowStable = t1, nowDeadline = t2\<rparr> # later)
          = Some (Inl err))
     \<and> ((\<forall>x \<in> set entries. selected x \<longrightarrow> (\<exists>bytes. Data x = Inr bytes)) \<longrightarrow>
          (\<exists>bytes cause'. Data bad = Inr bytes \<and> um bytes = Inl cause'
             \<and> err = ParseHookRecord (Join dir (Name bad)) cause'))"
proof -
  from assms(3,4) have "entryResult um dir ent = Inl (ParseHookRecord (Join dir (Name ent)) cause)"
    by (simp add: entryResult_def)
  with assms(1,2) have "\<exists>ent \<in> set entries. selected ent \<and> (\<exists>e. entryResult um dir ent = Inl e)"
    by blast
  from first_failing_entry[OF this] obtain pre bad post err where
    sp: "entries = pre @ bad # post" and sel: "selected bad" and
    bad: "entryResult um dir bad = Inl err" and
    pre: "\<forall>ent \<in> set pre. selected ent \<longrightarrow> (\<exists>c. entryResult um dir ent = Inr c)"
    by blast
  have mem: "bad \<in> set entries" using sp by simp
  have scan: "readHookCallsOnce um dir (Inr entries) = Inl err"
    using readEntries_first_failure[OF pre sel bad, of post "[]"] sp
    by (simp add: readHookCallsOnce_def)
  have loop: "listLoop um dir want deadline lastCount stableSince
        (\<lparr>listing = Inr entries, nowStable = t1, nowDeadline = t2\<rparr> # later) = Some (Inl err)"
    for want deadline lastCount stableSince t1 t2 later
    using scan by (simp add: listStep_def)
  have parse: "\<exists>bytes cause'. Data bad = Inr bytes \<and> um bytes = Inl cause'
        \<and> err = ParseHookRecord (Join dir (Name bad)) cause'"
    if "\<forall>x \<in> set entries. selected x \<longrightarrow> (\<exists>bytes. Data x = Inr bytes)"
  proof -
    from that mem sel obtain bytes where "Data bad = Inr bytes" by blast
    with bad show ?thesis
      by (auto simp: entryResult_def split: sum.splits)
  qed
  from mem sel bad entryResult_errorPath[OF bad] scan loop parse show ?thesis
    by blast
qed


theorem malformed_record_is_fatal_witness:
  "readHookCallsOnce exampleUnmarshal ''/calls'' (Inr malformedListing)
     = Inl (ParseHookRecord ''/calls/1.json'' ''invalid character'')
   \<and> (\<forall>want deadline lastCount stableSince t1 t2 later.
        listLoop exampleUnmarshal ''/calls'' want deadline lastCount stableSince
          (\<lparr>listing = Inr malformedListing, nowStable = t1, nowDeadline = t2\<rparr> # later)
        = Some (Inl (ParseHookRecord ''/calls/1.json'' ''invalid character'')))"
proof -
  let ?ent = "\<lparr>Name = ''2.json'', IsDir = False, Data = Inr ''not json''\<rparr>"
  have 1: "?ent \<in> set malformedListing" by (simp add: malformedListing_def)
  have 2: "selected ?ent" by (simp add: selected_def eval_stem eval_Atoi)
  have 3: "Data ?ent = Inr ''not json''" by simp
  have 4: "exampleUnmarshal ''not json'' = Inl ''invalid character''"
    by (simp add: exampleUnmarshal_def)
  from malformed_record_is_fatal[where um = exampleUnmarshal and dir = "''/calls''", OF 1 2 3 4]
  obtain bad :: dirEntry and err where
    scan: "readHookCallsOnce exampleUnmarshal ''/calls'' (Inr malformedListing) = Inl err" and
    loop: "\<forall>want deadline lastCount stableSince t1 t2 later.
          listLoop exampleUnmarshal ''/calls'' want deadline lastCount stableSince
            (\<lparr>listing = Inr malformedListing, nowStable = t1, nowDeadline = t2\<rparr> # later)
          = Some (Inl err)"
    by blast
  have "readHookCallsOnce exampleUnmarshal ''/calls'' (Inr malformedListing)
     = Inl (ParseHookRecord ''/calls/1.json'' ''invalid character'')"
    by (simp add: readHookCallsOnce_def malformedListing_def exampleUnmarshal_def eval_Join
        eval_stem eval_Atoi)
  with scan have "err = ParseHookRecord ''/calls/1.json'' ''invalid character''" by simp
  with scan loop show ?thesis by blast
qed


lemma digitChar_props:
  assumes "d < 10"
  shows "isDigit (digitChar d) \<and> digitVal (digitChar d) = d
     \<and> digitChar d \<noteq> CHR ''-'' \<and> digitChar d \<noteq> CHR ''+''"
proof -
  from assms have "d = 0 \<or> d = 1 \<or> d = 2 \<or> d = 3 \<or> d = 4 \<or> d = 5 \<or> d = 6
      \<or> d = 7 \<or> d = 8 \<or> d = 9"
    by arith
  then show ?thesis
    by (elim disjE) (simp_all add: digitChar_def isDigit_def digitVal_def)
qed

lemma parseDigits_snoc:
  "parseDigits n (xs @ [c]) =
     (case parseDigits n xs of
        Inl e \<Rightarrow> Inl e
      | Inr m \<Rightarrow>
          if \<not> isDigit c then Inl ErrSyntax
          else if m * 10 + digitVal c > maxUint64 then Inl ErrRange
          else Inr (m * 10 + digitVal c))"
  by (induction xs arbitrary: n) (simp_all add: Let_def)

lemma natDigits_nonempty: "natDigits m \<noteq> []"
  by (subst natDigits.simps) simp

lemma hd_natDigits: "hd (natDigits m) \<noteq> CHR ''-'' \<and> hd (natDigits m) \<noteq> CHR ''+''"
proof (induction m rule: natDigits.induct)
  case (1 n)
  show ?case
  proof (cases "n < 10")
    case True
    then show ?thesis
      using digitChar_props[of n] by (subst (1 2) natDigits.simps) simp
  next
    case False
    with 1 natDigits_nonempty[of "n div 10"] show ?thesis
      by (subst (1 2) natDigits.simps) simp
  qed
qed

lemma parseDigits_natDigits:
  "m \<le> maxUint64 \<Longrightarrow> parseDigits 0 (natDigits m) = Inr m"
proof (induction m rule: natDigits.induct)
  case (1 n)
  show ?case
  proof (cases "n < 10")
    case True
    then show ?thesis
      using digitChar_props[of n] by (subst natDigits.simps) (simp add: maxUint64_def)
  next
    case False
    from "1.prems" have le: "n div 10 \<le> maxUint64" by simp
    have d: "n mod 10 < 10" by simp
    from "1.IH"[OF False le] digitChar_props[OF d] "1.prems" False show ?thesis
      by (subst natDigits.simps) (simp add: parseDigits_snoc)
  qed
qed

lemma Atoi_Itoa:
  assumes "- 9223372036854775808 \<le> n" and "n < 9223372036854775808"
  shows "Atoi (Itoa n) = Inr n"
proof (cases "n < 0")
  case True
  let ?m = "nat (- n)"
  have m: "?m \<le> maxUint64" "?m \<le> cutoffInt64"
    using assms True by (simp_all add: maxUint64_def cutoffInt64_def)
  from parseDigits_natDigits[OF m(1)] natDigits_nonempty[of ?m] m(2) True show ?thesis
    by (simp add: Atoi_def Itoa_def ParseUint_def)
next
  case False
  let ?m = "nat n"
  have m: "?m \<le> maxUint64" "?m < cutoffInt64"
    using assms False by (simp_all add: maxUint64_def cutoffInt64_def)
  from parseDigits_natDigits[OF m(1)] natDigits_nonempty[of ?m] hd_natDigits[of ?m] m(2) False
  show ?thesis
    by (simp add: Atoi_def Itoa_def ParseUint_def)
qed

text \<open>
  C10, as stated: a record whose content repeats verbatim a stem with an explicit sign,
  such as that of -1.json, fails the sequence cross-check. It does not: the rendering of
  the number -1 is the stem itself, and the record passes every check.
\<close>

theorem minus_one_passes_counterexample:
  "stem ''-1.json'' = ''-1''
   \<and> readHookCallsOnce exampleUnmarshal ''/calls''
       (Inr [\<lparr>Name = ''-1.json'', IsDir = False, Data = Inr ''-1''\<rparr>])
     = Inr [exampleCall (- 1) ''-1'' ''/calls/-1.json'']
   \<and> \<not> seqBad (exampleCall (- 1) ''-1'' ''/calls/-1.json'')
   \<and> validate [exampleCall (- 1) ''-1'' ''/calls/-1.json''] [''turn_started''] = Inr ()"
  by (simp add: readHookCallsOnce_def sortBySeq_def exampleCall_def exampleUnmarshal_def
      eval_Join seqBad_def validate_def equalStrings_def eval_stem eval_Atoi eval_Itoa)

text \<open>
  C10, amended. The collector accepts every file name whose stem \<^verbatim>\<open>strconv.Atoi\<close>
  parses, leading zeros and a sign included, and the parsed number is the record's
  sequence number. The cross-check compares the self-reported string with the
  \<^verbatim>\<open>strconv.Itoa\<close> rendering of that number, so a record whose content repeats its stem
  fails it exactly when the stem is not that rendering: 007 and +2 fail, -1 passes. Every
  rendering of a 64-bit integer is itself a stem that parses, to that integer.
\<close>

theorem stem_cross_check:
  assumes "\<not> IsDir ent" and "Atoi (stem (Name ent)) = Inr n"
    and "Data ent = Inr b" and "um b = Inr parsed" and "seq parsed = stem (Name ent)"
  shows "(\<exists>c. selected ent \<and> entryResult um dir ent = Inr c
        \<and> readHookCallsOnce um dir (Inr [ent]) = Inr [c]
        \<and> Seq c = n \<and> SeqStr c = stem (Name ent)
        \<and> (seqBad c \<longleftrightarrow> stem (Name ent) \<noteq> Itoa n)
        \<and> (checkCalls [c] [] = Inl (SeqMismatch n (stem (Name ent)) (Join dir (Name ent)))
             \<longleftrightarrow> stem (Name ent) \<noteq> Itoa n))
     \<and> (- 9223372036854775808 \<le> m \<and> m < 9223372036854775808 \<longrightarrow> Atoi (Itoa m) = Inr m)
     \<and> stem ''007.json'' = ''007'' \<and> Atoi ''007'' = Inr 7 \<and> Itoa 7 = ''7''
     \<and> stem ''+2.json'' = ''+2'' \<and> Atoi ''+2'' = Inr 2 \<and> Itoa 2 = ''2''
     \<and> stem ''-1.json'' = ''-1'' \<and> Atoi ''-1'' = Inr (- 1) \<and> Itoa (- 1) = ''-1''"
proof -
  let ?c = "\<lparr>Seq = n, SeqStr = stem (Name ent), Expected = expected parsed,
      Event = event parsed, SubmissionID = submission_id parsed,
      Path = Join dir (Name ent)\<rparr>"
  have sel: "selected ent" using assms(1,2) by (simp add: selected_def)
  have res: "entryResult um dir ent = Inr ?c"
    using assms by (simp add: entryResult_def seqOf_def)
  have scan: "readHookCallsOnce um dir (Inr [ent]) = Inr [?c]"
    using sel res by (simp add: readHookCallsOnce_def readEntries_Cons sortBySeq_def
        del: readEntries.simps(2))
  have ne: "stem (Name ent) \<noteq> []" using assms(2) by (rule Atoi_nonempty)
  have bad: "seqBad ?c \<longleftrightarrow> stem (Name ent) \<noteq> Itoa n"
    using ne by (simp add: seqBad_def)
  have chk: "checkCalls [?c] [] = Inl (SeqMismatch n (stem (Name ent)) (Join dir (Name ent)))
             \<longleftrightarrow> stem (Name ent) \<noteq> Itoa n"
    using ne by simp
  have general: "\<exists>c. selected ent \<and> entryResult um dir ent = Inr c
        \<and> readHookCallsOnce um dir (Inr [ent]) = Inr [c]
        \<and> Seq c = n \<and> SeqStr c = stem (Name ent)
        \<and> (seqBad c \<longleftrightarrow> stem (Name ent) \<noteq> Itoa n)
        \<and> (checkCalls [c] [] = Inl (SeqMismatch n (stem (Name ent)) (Join dir (Name ent)))
             \<longleftrightarrow> stem (Name ent) \<noteq> Itoa n)"
    using sel res scan bad chk by (intro exI[of _ ?c]) simp
  have ex: "stem ''007.json'' = ''007''" "Atoi ''007'' = Inr 7" "Itoa 7 = ''7''"
    "stem ''+2.json'' = ''+2''" "Atoi ''+2'' = Inr 2" "Itoa 2 = ''2''"
    "stem ''-1.json'' = ''-1''" "Atoi ''-1'' = Inr (- 1)" "Itoa (- 1) = ''-1''"
    by (simp_all add: eval_stem eval_Atoi eval_Itoa)
  have canon: "- 9223372036854775808 \<le> m \<and> m < 9223372036854775808 \<longrightarrow> Atoi (Itoa m) = Inr m"
    using Atoi_Itoa[of m] by simp
  from ex have examples: "stem ''007.json'' = ''007'' \<and> Atoi ''007'' = Inr 7 \<and> Itoa 7 = ''7''
     \<and> stem ''+2.json'' = ''+2'' \<and> Atoi ''+2'' = Inr 2 \<and> Itoa 2 = ''2''
     \<and> stem ''-1.json'' = ''-1'' \<and> Atoi ''-1'' = Inr (- 1) \<and> Itoa (- 1) = ''-1''"
    by simp
  show ?thesis by (rule conjI[OF general conjI[OF canon examples]])
qed


theorem stem_cross_check_witness:
  "\<exists>c. readHookCallsOnce exampleUnmarshal ''/calls''
          (Inr [\<lparr>Name = ''007.json'', IsDir = False, Data = Inr ''007''\<rparr>]) = Inr [c]
      \<and> Seq c = 7 \<and> SeqStr c = ''007'' \<and> seqBad c"
proof -
  let ?ent = "\<lparr>Name = ''007.json'', IsDir = False, Data = Inr ''007''\<rparr>"
  let ?p = "\<lparr>seq = ''007'', expected = ''turn_started'', event = ''turn_started'',
      submission_id = ''sub-1''\<rparr>"
  have 1: "\<not> IsDir ?ent" by simp
  have 2: "Atoi (stem (Name ?ent)) = Inr 7" by (simp add: eval_stem eval_Atoi)
  have 3: "Data ?ent = Inr ''007''" by simp
  have 4: "exampleUnmarshal ''007'' = Inr ?p" by (simp add: exampleUnmarshal_def)
  have 5: "seq ?p = stem (Name ?ent)" by (simp add: eval_stem)
  have 6: "stem (Name ?ent) = ''007''" by (simp add: eval_stem)
  have 7: "Itoa 7 \<noteq> ''007''" by (simp add: eval_Itoa)
  note general =
    stem_cross_check[where um = exampleUnmarshal and dir = "''/calls''" and m = 0,
      OF 1 2 3 4 5, THEN conjunct1]
  from general 6 7 show ?thesis
    by auto
qed

section \<open>Properties of the polling loop\<close>

lemma pollCount_step:
  "listStep um dir want dl lc ss p = Inr (n, ss1) \<Longrightarrow> pollCount um dir p = Some n"
  by (auto simp: listStep_def pollCount_def endOfIteration_def Let_def
      split: sum.splits option.splits if_splits)

lemma readEntries_error:
  "readEntries um dir ents calls = Inl e \<Longrightarrow> \<exists>ent \<in> set ents. entryResult um dir ent = Inl e"
proof (induction ents arbitrary: calls)
  case Nil
  then show ?case by simp
next
  case (Cons ent ents)
  then show ?case
    by (auto simp: readEntries_Cons simp del: readEntries.simps split: if_splits sum.splits)
qed

lemma scan_never_times_out: "readHookCallsOnce um dir l \<noteq> Inl (TimedOut w d n)"
proof
  assume a: "readHookCallsOnce um dir l = Inl (TimedOut w d n)"
  then obtain ents where "readEntries um dir ents [] = Inl (TimedOut w d n)"
    by (auto simp: readHookCallsOnce_def split: sum.splits)
  from readEntries_error[OF this] obtain ent where
    "entryResult um dir ent = Inl (TimedOut w d n)" by blast
  then show False
    by (simp add: entryResult_def split: sum.splits)
qed

lemma step_past_deadline:
  assumes "pollCount um dir p = Some n" and "dl < nowDeadline p"
  shows "(\<exists>calls. listStep um dir want dl lc ss p = Inl (Inr calls))
      \<or> listStep um dir want dl lc ss p = Inl (Inl (TimedOut want dir n))"
  using assms
  by (auto simp: listStep_def pollCount_def endOfIteration_def Let_def
      split: sum.splits option.splits if_splits)

lemma listLoop_single:
  "listLoop um dir want dl lc ss [p] =
     (case listStep um dir want dl lc ss p of Inl r \<Rightarrow> Some r | Inr st \<Rightarrow> None)"
  by (simp split: sum.split prod.split)


lemma scan_sorted: "readHookCallsOnce um dir l = Inr calls \<Longrightarrow> sorted (map Seq calls)"
  by (auto simp: readHookCallsOnce_def sortBySeq_def split: sum.splits)

lemma step_continues_before_deadline:
  "listStep um dir want dl lc ss p = Inr st \<Longrightarrow> nowDeadline p \<le> dl"
  by (auto simp: listStep_def endOfIteration_def Let_def
      split: sum.splits option.splits if_splits)

lemma loop_ends_past_deadline:
  "\<exists>p \<in> set polls. dl < nowDeadline p \<Longrightarrow>
   \<exists>r. listLoop um dir want dl lc ss polls = Some r"
proof (induction polls arbitrary: lc ss)
  case Nil
  then show ?case by simp
next
  case (Cons p polls)
  show ?case
  proof (cases "listStep um dir want dl lc ss p")
    case (Inl r)
    then show ?thesis by simp
  next
    case (Inr st)
    obtain n ss1 where st: "st = (n, ss1)" by (cases st)
    from step_continues_before_deadline[OF Inr] have "nowDeadline p \<le> dl" .
    with Cons.prems have "\<exists>q \<in> set polls. dl < nowDeadline q" by auto
    from Cons.IH[OF this, of n ss1] Inr st show ?thesis by simp
  qed
qed

lemma listHookCalls_ends:
  assumes "\<exists>p \<in> set polls. start + timeout < nowDeadline p"
  shows "\<exists>r. listHookCalls um dir want timeout start polls = Some r"
  unfolding listHookCalls_def using assms by (rule loop_ends_past_deadline)


lemma countBefore_append:
  "j \<le> length hist \<Longrightarrow> countBefore um dir (hist @ [p]) j = countBefore um dir hist j"
  by (cases j) (simp_all add: countBefore_def nth_append)

lemma countBefore_append_last:
  "countBefore um dir (hist @ [p]) (Suc (length hist)) = pollCount um dir p"
  by (simp add: countBefore_def)

lemma repeatsFrom_append_lt:
  "j < length hist \<Longrightarrow>
   repeatsFrom um dir (hist @ [p]) j c \<longleftrightarrow>
     repeatsFrom um dir hist j c \<and> pollCount um dir p = Some c"
  by (auto simp: repeatsFrom_def countBefore_append)

lemma repeatsFrom_append_eq:
  "repeatsFrom um dir (hist @ [p]) (length hist) c \<longleftrightarrow>
     countBefore um dir hist (length hist) = Some c \<and> pollCount um dir p = Some c"
  by (auto simp: repeatsFrom_def countBefore_append)

lemma repeatsFrom_countBefore:
  assumes r: "repeatsFrom um dir hist j c" and le: "j \<le> k" "k \<le> length hist"
  shows "countBefore um dir hist k = Some c"
proof (cases "k = j")
  case True
  with r show ?thesis by (simp add: repeatsFrom_def)
next
  case False
  with le have k: "j \<le> k - 1" "k - 1 < length hist" "k \<noteq> 0" by simp_all
  then have "hist ! (k - 1) \<in> set (drop j hist)"
    by (auto simp: in_set_conv_nth intro!: exI[of _ "k - 1 - j"])
  with r have "pollCount um dir (hist ! (k - 1)) = Some c"
    by (simp add: repeatsFrom_def list_all_iff)
  with k(3) show ?thesis by (simp add: countBefore_def)
qed

lemma startsStability_unique:
  assumes a: "startsStability um dir hist j c" and b: "startsStability um dir hist k c"
  shows "j = k"
proof -
  have no: "\<not> l < m" if x: "startsStability um dir hist l c" and y: "startsStability um dir hist m c"
    for l m
  proof
    assume lt: "l < m"
    from y have m: "m < length hist" "countBefore um dir hist (m - 1) \<noteq> Some c"
      using lt by (auto simp: startsStability_def repeatsFrom_def)
    from x have "repeatsFrom um dir hist l c" by (simp add: startsStability_def)
    from repeatsFrom_countBefore[OF this, of "m - 1"] lt m(1)
    have "countBefore um dir hist (m - 1) = Some c" by simp
    with m(2) show False by simp
  qed
  from no[OF a b] no[OF b a] show ?thesis by simp
qed

lemma startsStability_append_lt:
  "j < length hist \<Longrightarrow>
   startsStability um dir (hist @ [p]) j c \<longleftrightarrow>
     startsStability um dir hist j c \<and> pollCount um dir p = Some c"
  by (auto simp: startsStability_def repeatsFrom_append_lt countBefore_append)

lemma drop_to_last:
  "hist \<noteq> [] \<Longrightarrow> drop (length hist - Suc 0) hist = [hist ! (length hist - Suc 0)]"
  by (cases hist rule: rev_cases) (simp_all add: nth_append)

lemma tracks_initial: "tracks um dir want [] 0 None"
  by (simp add: tracks_def countBefore_def)

lemma step_next:
  "listStep um dir want dl lc ss p = Inr (n, ss1) \<Longrightarrow>
   pollCount um dir p = Some n
   \<and> ss1 = (if want \<le> n then
               (if n = lc then (case ss of None \<Rightarrow> Some (nowStable p) | Some t \<Rightarrow> Some t)
                else None)
             else ss)"
  by (auto simp: listStep_def pollCount_def endOfIteration_def Let_def
      split: sum.splits option.splits if_splits)

lemma tracks_step:
  assumes tr: "tracks um dir want hist lc ss"
    and step: "listStep um dir want dl lc ss p = Inr (n, ss1)"
  shows "tracks um dir want (hist @ [p]) n ss1"
proof -
  from step_next[OF step] have pc: "pollCount um dir p = Some n" and
    ss1: "ss1 = (if want \<le> n then
               (if n = lc then (case ss of None \<Rightarrow> Some (nowStable p) | Some t \<Rightarrow> Some t)
                else None)
             else ss)" by simp_all
  from tr have last: "countBefore um dir hist (length hist) = Some lc"
    by (simp add: tracks_def)
  have c1: "countBefore um dir (hist @ [p]) (length (hist @ [p])) = Some n"
    using pc by (simp add: countBefore_append_last)
  have c2: "case ss1 of
       None \<Rightarrow> \<forall>j<length (hist @ [p]). \<not> repeatsFrom um dir (hist @ [p]) j n
     | Some t \<Rightarrow> \<exists>j<length (hist @ [p]). startsStability um dir (hist @ [p]) j n
          \<and> t = nowStable ((hist @ [p]) ! j)" if wn: "want \<le> n"
  proof (cases "n = lc")
    case False
    have "\<not> repeatsFrom um dir (hist @ [p]) j n" if j: "j < length (hist @ [p])" for j
    proof (cases "j < length hist")
      case True
      show ?thesis
      proof
        assume "repeatsFrom um dir (hist @ [p]) j n"
        with True have "repeatsFrom um dir hist j n" by (simp add: repeatsFrom_append_lt)
        from repeatsFrom_countBefore[OF this, of "length hist"] True last False
        show False by simp
      qed
    next
      case False
      with j have "j = length hist" by simp
      with last \<open>n \<noteq> lc\<close> show ?thesis by (simp add: repeatsFrom_append_eq)
    qed
    with wn False ss1 show ?thesis by simp
  next
    case True
    with wn tr have inv: "case ss of
         None \<Rightarrow> \<forall>j<length hist. \<not> repeatsFrom um dir hist j n
       | Some t \<Rightarrow> \<exists>j<length hist. startsStability um dir hist j n \<and> t = nowStable (hist ! j)"
      by (cases ss) (auto simp: tracks_def)
    show ?thesis
    proof (cases ss)
      case None
      with inv have none: "\<forall>j<length hist. \<not> repeatsFrom um dir hist j n" by simp
      have rep: "repeatsFrom um dir (hist @ [p]) (length hist) n"
        using last True pc by (simp add: repeatsFrom_append_eq)
      have first: "length hist = 0 \<or> countBefore um dir (hist @ [p]) (length hist - 1) \<noteq> Some n"
      proof (cases "length hist = 0")
        case True
        then show ?thesis by simp
      next
        case False
        then have lt: "length hist - 1 < length hist" by simp
        have "countBefore um dir hist (length hist - 1) \<noteq> Some n"
        proof
          assume cb: "countBefore um dir hist (length hist - 1) = Some n"
          have "repeatsFrom um dir hist (length hist - 1) n"
            using lt cb last True False
            by (simp add: repeatsFrom_def countBefore_def drop_to_last)
          with none lt show False by blast
        qed
        with lt show ?thesis by (simp add: countBefore_append)
      qed
      from rep first have "startsStability um dir (hist @ [p]) (length hist) n"
        by (simp add: startsStability_def)
      with None wn True ss1 show ?thesis
        by (auto intro!: exI[of _ "length hist"])
    next
      case (Some t)
      with inv obtain j where j: "j < length hist" "startsStability um dir hist j n"
        "t = nowStable (hist ! j)" by auto
      with pc have "startsStability um dir (hist @ [p]) j n"
        by (simp add: startsStability_append_lt)
      with j Some wn True ss1 show ?thesis
        by (auto intro!: exI[of _ j] simp: nth_append)
    qed
  qed
  from c1 c2 show ?thesis by (simp add: tracks_def)
qed


lemma timer_iff:
  assumes tr: "tracks um dir want hist lc ss" and wc: "want \<le> c"
  shows "(c = lc \<and> (\<exists>t. ss = Some t \<and> quietFor \<le> now - t)) \<longleftrightarrow>
     (\<exists>j. startsStability um dir hist j c \<and> quietFor \<le> now - nowStable (hist ! j))"
proof
  assume l: "c = lc \<and> (\<exists>t. ss = Some t \<and> quietFor \<le> now - t)"
  then obtain t where t: "ss = Some t" "quietFor \<le> now - t" by blast
  with tr wc l obtain j where "startsStability um dir hist j c" "t = nowStable (hist ! j)"
    by (auto simp: tracks_def)
  with t(2) show "\<exists>j. startsStability um dir hist j c \<and> quietFor \<le> now - nowStable (hist ! j)"
    by blast
next
  assume "\<exists>j. startsStability um dir hist j c \<and> quietFor \<le> now - nowStable (hist ! j)"
  then obtain j where j: "startsStability um dir hist j c"
    "quietFor \<le> now - nowStable (hist ! j)" by blast
  then have rep: "repeatsFrom um dir hist j c" by (simp add: startsStability_def)
  then have jl: "j < length hist" by (simp add: repeatsFrom_def)
  from repeatsFrom_countBefore[OF rep, of "length hist"] jl
  have "countBefore um dir hist (length hist) = Some c" by simp
  with tr have eq: "c = lc" by (simp add: tracks_def)
  show "c = lc \<and> (\<exists>t. ss = Some t \<and> quietFor \<le> now - t)"
  proof (cases ss)
    case None
    with tr wc eq have "\<forall>k<length hist. \<not> repeatsFrom um dir hist k c"
      by (simp add: tracks_def)
    with rep jl show ?thesis by blast
  next
    case (Some t)
    with tr wc eq obtain k where k: "startsStability um dir hist k c" "t = nowStable (hist ! k)"
      by (auto simp: tracks_def)
    from startsStability_unique[OF j(1) k(1)] k(2) j(2) Some eq show ?thesis by simp
  qed
qed

lemma step_returns_iff:
  "listStep um dir want dl lc ss p = Inl (Inr calls) \<longleftrightarrow>
     readHookCallsOnce um dir (listing p) = Inr calls \<and> want \<le> int (length calls)
     \<and> int (length calls) = lc \<and> (\<exists>t. ss = Some t \<and> quietFor \<le> nowStable p - t)"
  by (cases "readHookCallsOnce um dir (listing p)"; cases ss)
     (auto simp: listStep_def endOfIteration_def Let_def)

lemma step_timeout_iff:
  "listStep um dir want dl lc ss p = Inl (Inl (TimedOut w d n)) \<longleftrightarrow>
     w = want \<and> d = dir \<and> pollCount um dir p = Some n \<and> dl < nowDeadline p
     \<and> \<not> (want \<le> n \<and> n = lc \<and> (\<exists>t. ss = Some t \<and> quietFor \<le> nowStable p - t))"
  using scan_never_times_out[of um dir "listing p" w d n]
  by (cases "readHookCallsOnce um dir (listing p)"; cases ss)
     (auto simp: listStep_def pollCount_def endOfIteration_def Let_def)

lemma loop_pending:
  assumes "tracks um dir want hist lc ss"
    and "listLoop um dir want dl lc ss seen = None"
  shows "\<exists>n ss1. tracks um dir want (hist @ seen) n ss1
      \<and> (\<forall>rest. listLoop um dir want dl lc ss (seen @ rest) = listLoop um dir want dl n ss1 rest)"
  using assms
proof (induction seen arbitrary: lc ss hist)
  case Nil
  then show ?case by (intro exI[of _ lc] exI[of _ ss]) simp
next
  case (Cons q seen)
  from Cons.prems(2) obtain n ss1 where
    step: "listStep um dir want dl lc ss q = Inr (n, ss1)" and
    rest: "listLoop um dir want dl n ss1 seen = None"
    by (auto split: sum.splits)
  note tr1 = tracks_step[OF Cons.prems(1) step]
  from Cons.IH[OF tr1 rest] obtain m ss2 where
    tr2: "tracks um dir want ((hist @ [q]) @ seen) m ss2" and
    run: "\<forall>rest. listLoop um dir want dl n ss1 (seen @ rest) = listLoop um dir want dl m ss2 rest"
    by blast
  have "\<forall>rest. listLoop um dir want dl lc ss ((q # seen) @ rest) = listLoop um dir want dl m ss2 rest"
    using step run by simp
  with tr2 show ?case
    by (intro exI[of _ m] exI[of _ ss2]) simp
qed

lemma pending_then:
  assumes "listHookCalls um dir want timeout start seen = None"
  obtains n ss1 where "tracks um dir want seen n ss1"
    and "\<And>p. listHookCalls um dir want timeout start (seen @ [p]) =
          (case listStep um dir want (start + timeout) n ss1 p of
             Inl r \<Rightarrow> Some r | Inr st \<Rightarrow> None)"
proof -
  from assms have "listLoop um dir want (start + timeout) 0 None seen = None"
    by (simp add: listHookCalls_def)
  from loop_pending[OF tracks_initial this] obtain n ss1 where
    tr: "tracks um dir want ([] @ seen) n ss1" and
    run: "\<forall>rest. listLoop um dir want (start + timeout) 0 None (seen @ rest) =
        listLoop um dir want (start + timeout) n ss1 rest"
    by blast
  have r: "listHookCalls um dir want timeout start (seen @ [p]) =
          (case listStep um dir want (start + timeout) n ss1 p of
             Inl r \<Rightarrow> Some r | Inr st \<Rightarrow> None)" for p
    unfolding listHookCalls_def using run listLoop_single[of um dir want "start + timeout" n ss1 p]
    by (simp only:)
  from tr have t: "tracks um dir want seen n ss1" by simp
  from t r show thesis by (rule that)
qed

lemma returns_iff:
  assumes pend: "listHookCalls um dir want timeout start seen = None"
  shows "listHookCalls um dir want timeout start (seen @ [p]) = Some (Inr calls) \<longleftrightarrow>
     readHookCallsOnce um dir (listing p) = Inr calls \<and> want \<le> int (length calls)
     \<and> (\<exists>j. startsStability um dir seen j (int (length calls))
            \<and> quietFor \<le> nowStable p - nowStable (seen ! j))"
proof (rule pending_then[OF pend])
  fix lc ss1
  assume tr: "tracks um dir want seen lc ss1"
    and run: "\<And>q. listHookCalls um dir want timeout start (seen @ [q]) =
        (case listStep um dir want (start + timeout) lc ss1 q of
           Inl r \<Rightarrow> Some r | Inr st \<Rightarrow> None)"
  have "listHookCalls um dir want timeout start (seen @ [p]) = Some (Inr calls) \<longleftrightarrow>
      listStep um dir want (start + timeout) lc ss1 p = Inl (Inr calls)"
    unfolding run[of p]
    by (cases "listStep um dir want (start + timeout) lc ss1 p") simp_all
  also have "\<dots> \<longleftrightarrow> readHookCallsOnce um dir (listing p) = Inr calls
     \<and> want \<le> int (length calls)
     \<and> int (length calls) = lc \<and> (\<exists>t. ss1 = Some t \<and> quietFor \<le> nowStable p - t)"
    by (rule step_returns_iff)
  also have "\<dots> \<longleftrightarrow> readHookCallsOnce um dir (listing p) = Inr calls
     \<and> want \<le> int (length calls)
     \<and> (\<exists>j. startsStability um dir seen j (int (length calls))
            \<and> quietFor \<le> nowStable p - nowStable (seen ! j))"
    using timer_iff[OF tr, of "int (length calls)" "nowStable p"] by blast
  finally show ?thesis .
qed

lemma times_out_iff:
  assumes pend: "listHookCalls um dir want timeout start seen = None"
  shows "listHookCalls um dir want timeout start (seen @ [p]) = Some (Inl (TimedOut w d n)) \<longleftrightarrow>
     w = want \<and> d = dir \<and> pollCount um dir p = Some n \<and> start + timeout < nowDeadline p
     \<and> \<not> (want \<le> n \<and> (\<exists>j. startsStability um dir seen j n
                         \<and> quietFor \<le> nowStable p - nowStable (seen ! j)))"
proof (rule pending_then[OF pend])
  fix lc ss1
  assume tr: "tracks um dir want seen lc ss1"
    and run: "\<And>q. listHookCalls um dir want timeout start (seen @ [q]) =
        (case listStep um dir want (start + timeout) lc ss1 q of
           Inl r \<Rightarrow> Some r | Inr st \<Rightarrow> None)"
  have "listHookCalls um dir want timeout start (seen @ [p]) = Some (Inl (TimedOut w d n)) \<longleftrightarrow>
      listStep um dir want (start + timeout) lc ss1 p = Inl (Inl (TimedOut w d n))"
    unfolding run[of p]
    by (cases "listStep um dir want (start + timeout) lc ss1 p") simp_all
  also have "\<dots> \<longleftrightarrow> w = want \<and> d = dir \<and> pollCount um dir p = Some n
     \<and> start + timeout < nowDeadline p
     \<and> \<not> (want \<le> n \<and> n = lc \<and> (\<exists>t. ss1 = Some t \<and> quietFor \<le> nowStable p - t))"
    by (rule step_timeout_iff)
  also have "\<dots> \<longleftrightarrow> w = want \<and> d = dir \<and> pollCount um dir p = Some n
     \<and> start + timeout < nowDeadline p
     \<and> \<not> (want \<le> n \<and> (\<exists>j. startsStability um dir seen j n
                         \<and> quietFor \<le> nowStable p - nowStable (seen ! j)))"
  proof (cases "want \<le> n")
    case True
    from timer_iff[OF tr True, of "nowStable p"] show ?thesis by blast
  next
    case False
    then show ?thesis by simp
  qed
  finally show ?thesis .
qed

lemma returned_sorted:
  assumes pend: "listHookCalls um dir want timeout start seen = None"
    and ret: "listHookCalls um dir want timeout start (seen @ [p]) = Some (Inr calls)"
  shows "sorted (map Seq calls)"
proof -
  from returns_iff[OF pend, of p calls] ret
  have "readHookCallsOnce um dir (listing p) = Inr calls" by simp
  then show ?thesis by (rule scan_sorted)
qed

lemmas eval_scan = readHookCallsOnce_def sortBySeq_def exampleUnmarshal_def eval_Join
  stem_def TrimSuffix_def Ext_def HasSuffix_def eval_Atoi

lemma example_scan2:
  "readHookCallsOnce exampleUnmarshal ''/calls'' (listing (examplePoll ms [''0'', ''1''])) =
     Inr [exampleCall 0 ''0'' ''/calls/0.json'', exampleCall 1 ''1'' ''/calls/1.json'']"
  by (simp add: examplePoll_def exampleCall_def eval_scan)

lemma example_scan4:
  "readHookCallsOnce exampleUnmarshal ''/calls''
     (listing (examplePoll ms [''0'', ''1'', ''2'', ''3''])) =
     Inr [exampleCall 0 ''0'' ''/calls/0.json'', exampleCall 1 ''1'' ''/calls/1.json'',
          exampleCall 2 ''2'' ''/calls/2.json'', exampleCall 3 ''3'' ''/calls/3.json'']"
  by (simp add: examplePoll_def exampleCall_def eval_scan)

lemma example_times:
  "nowStable (examplePoll ms names) = ms * Millisecond"
  "nowDeadline (examplePoll ms names) = ms * Millisecond"
  by (simp_all add: examplePoll_def)



lemmas eval_loop = listHookCalls_def listStep_def endOfIteration_def example_scan2
  example_scan4 example_times Millisecond_def quietFor_def

lemmas eval_trace = startsStability_def repeatsFrom_def countBefore_def pollCount_def
  example_scan2 example_scan4 example_times Millisecond_def quietFor_def

text \<open>
  C3, as stated: the records are returned exactly when the count has been at or above the
  minimum and unchanged for the quiet duration, and a timeout that elapses before
  stability is reached gives the timeout error. Both fail. With four records in the
  directory and a minimum of four, polls 300 ms apart find the same count twice and the
  loop goes on polling: the first poll only notes the count, the second starts the timer.
  With a timeout of 100 ms, shorter than the quiet duration, and polls at 0, 25 and
  300 ms, the loop returns the records at 300 ms: the deadline had not passed at 25 ms,
  and the next poll tests stability before the deadline.
\<close>

theorem unchanged_count_counterexample:
  "pollCount exampleUnmarshal ''/calls'' (examplePoll 0 [''0'', ''1'', ''2'', ''3'']) = Some 4
   \<and> pollCount exampleUnmarshal ''/calls'' (examplePoll 300 [''0'', ''1'', ''2'', ''3'']) = Some 4
   \<and> quietFor \<le> nowStable (examplePoll 300 [''0'', ''1'', ''2'', ''3''])
                 - nowStable (examplePoll 0 [''0'', ''1'', ''2'', ''3''])
   \<and> listHookCalls exampleUnmarshal ''/calls'' 4 (5000 * Millisecond) 0
        [examplePoll 0 [''0'', ''1'', ''2'', ''3''],
         examplePoll 300 [''0'', ''1'', ''2'', ''3'']] = None
   \<and> 100 * Millisecond < quietFor
   \<and> 0 + 100 * Millisecond < nowStable (examplePoll 300 [''0'', ''1'', ''2'', ''3''])
   \<and> listHookCalls exampleUnmarshal ''/calls'' 4 (100 * Millisecond) 0
        [examplePoll 0 [''0'', ''1'', ''2'', ''3''],
         examplePoll 25 [''0'', ''1'', ''2'', ''3''],
         examplePoll 300 [''0'', ''1'', ''2'', ''3'']]
      = Some (Inr [exampleCall 0 ''0'' ''/calls/0.json'', exampleCall 1 ''1'' ''/calls/1.json'',
                   exampleCall 2 ''2'' ''/calls/2.json'', exampleCall 3 ''3'' ''/calls/3.json''])"
  by (simp add: eval_loop pollCount_def)

text \<open>
  C3, amended. While the loop is polling, the next poll returns the sorted records exactly
  when its scan succeeds with a count at or above the minimum and the stability timer for
  that count is at least 200 ms old at it. The timer is started by the first poll that
  finds the count of the poll before it (0 before the first poll), not by the poll that
  first finds the count, and runs as long as every poll finds that count; a different
  count at or above the minimum stops it. A poll that does not return fails with the
  timeout error, which carries the minimum asked for, the directory and the count of that
  poll, exactly when its scan succeeds and its clock reading is past the deadline: a poll
  that finds the count stable returns the records even after the deadline. The loop
  returns on every sequence of polls whose clock passes the deadline.
\<close>

theorem returns_when_timer_is_quiet:
  assumes "listHookCalls um dir want timeout start seen = None"
  shows "(listHookCalls um dir want timeout start (seen @ [p]) = Some (Inr calls) \<longleftrightarrow>
        readHookCallsOnce um dir (listing p) = Inr calls \<and> want \<le> int (length calls)
        \<and> (\<exists>j. startsStability um dir seen j (int (length calls))
               \<and> quietFor \<le> nowStable p - nowStable (seen ! j)))
     \<and> (listHookCalls um dir want timeout start (seen @ [p]) = Some (Inr calls) \<longrightarrow>
        sorted (map Seq calls))
     \<and> (listHookCalls um dir want timeout start (seen @ [p]) = Some (Inl (TimedOut w d n)) \<longleftrightarrow>
        w = want \<and> d = dir \<and> pollCount um dir p = Some n \<and> start + timeout < nowDeadline p
        \<and> \<not> (want \<le> n \<and> (\<exists>j. startsStability um dir seen j n
                            \<and> quietFor \<le> nowStable p - nowStable (seen ! j))))
     \<and> ((\<exists>q \<in> set polls. start + timeout < nowDeadline q) \<longrightarrow>
        (\<exists>r. listHookCalls um dir want timeout start polls = Some r))"
  (is "?A \<and> (?B1 \<longrightarrow> ?B2) \<and> ?C \<and> (?E1 \<longrightarrow> ?E2)")
proof -
  have A: ?A by (rule returns_iff[OF assms])
  have B: "?B1 \<longrightarrow> ?B2"
  proof
    assume ?B1
    with assms show ?B2 by (rule returned_sorted)
  qed
  have C: ?C by (rule times_out_iff[OF assms])
  have E: "?E1 \<longrightarrow> ?E2"
  proof
    assume ?E1
    then show ?E2 by (rule listHookCalls_ends)
  qed
  show ?thesis by (rule conjI[OF A conjI[OF B conjI[OF C E]]])
qed

theorem returns_when_timer_is_quiet_witness:
  "listHookCalls exampleUnmarshal ''/calls'' 4 (5000 * Millisecond) 0 (butlast examplePolls)
     = None
   \<and> listHookCalls exampleUnmarshal ''/calls'' 4 (5000 * Millisecond) 0 examplePolls =
     Some (Inr [exampleCall 0 ''0'' ''/calls/0.json'', exampleCall 1 ''1'' ''/calls/1.json'',
                exampleCall 2 ''2'' ''/calls/2.json'', exampleCall 3 ''3'' ''/calls/3.json''])
   \<and> listHookCalls exampleUnmarshal ''/calls'' 4 (100 * Millisecond) 0 (take 4 examplePolls) =
     Some (Inl (TimedOut 4 ''/calls'' 4))"
proof -
  let ?four = "[''0'', ''1'', ''2'', ''3'']"
  let ?seen = "[examplePoll 0 [''0'', ''1''], examplePoll 50 ?four, examplePoll 75 ?four,
      examplePoll 200 ?four]"
  let ?seen3 = "[examplePoll 0 [''0'', ''1''], examplePoll 50 ?four, examplePoll 75 ?four]"
  let ?R = "[exampleCall 0 ''0'' ''/calls/0.json'', exampleCall 1 ''1'' ''/calls/1.json'',
      exampleCall 2 ''2'' ''/calls/2.json'', exampleCall 3 ''3'' ''/calls/3.json'']"
  have pend: "listHookCalls exampleUnmarshal ''/calls'' 4 (5000 * Millisecond) 0 ?seen = None"
    by (simp add: eval_loop)
  have start: "startsStability exampleUnmarshal ''/calls'' ?seen 2 (int (length ?R))"
    by (simp add: eval_trace)
  have quiet: "quietFor \<le> nowStable (examplePoll 275 ?four) - nowStable (?seen ! 2)"
    by (simp add: example_times Millisecond_def quietFor_def)
  have scan: "readHookCallsOnce exampleUnmarshal ''/calls'' (listing (examplePoll 275 ?four))
      = Inr ?R"
    by (rule example_scan4)
  have enough: "4 \<le> int (length ?R)" by simp
  from returns_when_timer_is_quiet[OF pend, of "examplePoll 275 ?four" ?R, THEN conjunct1]
    scan enough start quiet
  have ret: "listHookCalls exampleUnmarshal ''/calls'' 4 (5000 * Millisecond) 0
      (?seen @ [examplePoll 275 ?four]) = Some (Inr ?R)"
    by blast
  have pend3: "listHookCalls exampleUnmarshal ''/calls'' 4 (100 * Millisecond) 0 ?seen3 = None"
    by (simp add: eval_loop)
  have notyet: "\<not> (\<exists>j. startsStability exampleUnmarshal ''/calls'' ?seen3 j 4
      \<and> quietFor \<le> nowStable (examplePoll 200 ?four) - nowStable (?seen3 ! j))"
  proof
    assume "\<exists>j. startsStability exampleUnmarshal ''/calls'' ?seen3 j 4
      \<and> quietFor \<le> nowStable (examplePoll 200 ?four) - nowStable (?seen3 ! j)"
    then obtain j where j: "startsStability exampleUnmarshal ''/calls'' ?seen3 j 4"
      "quietFor \<le> nowStable (examplePoll 200 ?four) - nowStable (?seen3 ! j)" by blast
    have "startsStability exampleUnmarshal ''/calls'' ?seen3 2 4"
      by (simp add: eval_trace)
    from startsStability_unique[OF j(1) this] j(2) show False
      by (simp add: example_times Millisecond_def quietFor_def)
  qed
  have pc: "pollCount exampleUnmarshal ''/calls'' (examplePoll 200 ?four) = Some 4"
    by (simp add: pollCount_def example_scan4)
  have late: "0 + 100 * Millisecond < nowDeadline (examplePoll 200 ?four)"
    by (simp add: example_times Millisecond_def)
  from returns_when_timer_is_quiet[OF pend3, of "examplePoll 200 ?four" _ 4 "''/calls''" 4,
      THEN conjunct2, THEN conjunct2, THEN conjunct1] pc late notyet
  have out: "listHookCalls exampleUnmarshal ''/calls'' 4 (100 * Millisecond) 0
      (?seen3 @ [examplePoll 200 ?four]) = Some (Inl (TimedOut 4 ''/calls'' 4))"
    by blast
  from pend ret out show ?thesis
    by (simp add: examplePolls_def)
qed

section \<open>Properties of the stream encoding\<close>

lemma only_kind_iff:
  assumes "map_of ev ''type'' = Some v" and "distinct (map fst ev)"
  shows "length ev = 1 \<longleftrightarrow> \<not> carriesPayload ev"
proof
  assume "length ev = 1"
  then obtain kv where ev: "ev = [kv]" by (cases ev) auto
  with assms(1) have "fst kv = ''type''" by (cases kv) (auto split: if_splits)
  with ev show "\<not> carriesPayload ev" by (simp add: carriesPayload_def)
next
  assume "\<not> carriesPayload ev"
  then have keys: "set (map fst ev) \<subseteq> {''type''}"
    by (auto simp: carriesPayload_def list_ex_iff)
  have ne: "ev \<noteq> []" using assms(1) by auto
  have "length ev = card (set (map fst ev))"
    using assms(2) distinct_card[of "map fst ev"] by simp
  also have "\<dots> \<le> card {''type''}"
    using keys by (intro card_mono) simp_all
  finally have "length ev \<le> 1" by simp
  with ne show "length ev = 1" by (cases ev) auto
qed

lemma sse_Cons:
  assumes "map_of ev ''type'' = Some (JStr kind)" and "distinct (map fst ev)"
  shows "sse (ev # events) =
     frame (kindOf ev) (if carriesPayload ev then Some (marshal (JObj ev)) else None)
       @ sse events"
  using only_kind_iff[OF assms] assms(1)
  by (cases "carriesPayload ev") (simp_all add: frame_def kindOf_def del: marshal.simps)

lemma sse_frames:
  "\<forall>ev \<in> set events. \<exists>kind. map_of ev ''type'' = Some (JStr kind) \<and> distinct (map fst ev) \<Longrightarrow>
   sse events =
     concat (map (\<lambda>ev. frame (kindOf ev)
                    (if carriesPayload ev then Some (marshal (JObj ev)) else None)) events)"
proof (induction events)
  case Nil
  then show ?case by simp
next
  case (Cons ev events)
  then obtain kind where k: "map_of ev ''type'' = Some (JStr kind)" "distinct (map fst ev)"
    by auto
  from Cons.prems have rest:
    "\<forall>ev \<in> set events. \<exists>kind. map_of ev ''type'' = Some (JStr kind) \<and> distinct (map fst ev)"
    by (simp del: map_of_eq_Some_iff)
  from Cons.IH[OF rest] sse_Cons[OF k, of events] show ?case by simp
qed

lemmas eval_marshal = appendString_def escapeByte_def hexDigit_def LF_def

lemma created_stream:
  "sse [evResponseCreated ''resp-1'', evCompletedBare ''resp-1''] =
     ''event: response.created'' @ [LF] @
     ''data: {\"response\":{\"id\":\"resp-1\"},\"type\":\"response.created\"}'' @ [LF, LF] @
     ''event: response.completed'' @ [LF] @
     ''data: {\"response\":{\"id\":\"resp-1\"},\"type\":\"response.completed\"}'' @ [LF, LF]"
  by (simp add: evResponseCreated_def evCompletedBare_def eval_marshal)

lemma client_roundtrip:
  "clientEvents (sse [evResponseCreated ''resp-1'', evCompletedBare ''resp-1'']) =
     [(''response.created'', Some (JObj (sortByKey (evResponseCreated ''resp-1'')))),
      (''response.completed'', Some (JObj (sortByKey (evCompletedBare ''resp-1''))))]"
  unfolding created_stream
  by (simp add: clientEvents_def fieldValue_def jsonParse_def isSpace_def LF_def
      evResponseCreated_def evCompletedBare_def)

lemma same_fields:
  "map_of (sortByKey (evResponseCreated ''resp-1'')) = map_of (evResponseCreated ''resp-1'')"
  "map_of (sortByKey (evCompletedBare ''resp-1'')) = map_of (evCompletedBare ''resp-1'')"
  by (auto simp: evResponseCreated_def evCompletedBare_def fun_eq_iff)

text \<open>
  C6. For scripted events (maps with a string under the key \<^verbatim>\<open>type\<close>) the encoding is
  the concatenation of their frames: the event-kind line, then a data line with the
  whole event as JSON exactly when the event has an entry beside its kind, then a blank
  line. The stream of the created and the completed event for resp-1, read back by the
  generic client, gives the two kinds with payloads that have the same fields as the
  events encoded.
\<close>

theorem sse_frames_and_roundtrip:
  assumes "\<forall>ev \<in> set events. \<exists>kind. map_of ev ''type'' = Some (JStr kind) \<and> distinct (map fst ev)"
  shows "sse events =
       concat (map (\<lambda>ev. frame (kindOf ev)
                      (if carriesPayload ev then Some (marshal (JObj ev)) else None)) events)
     \<and> clientEvents (sse [evResponseCreated ''resp-1'', evCompletedBare ''resp-1'']) =
         [(''response.created'', Some (JObj (sortByKey (evResponseCreated ''resp-1'')))),
          (''response.completed'', Some (JObj (sortByKey (evCompletedBare ''resp-1''))))]
     \<and> map_of (sortByKey (evResponseCreated ''resp-1'')) = map_of (evResponseCreated ''resp-1'')
     \<and> map_of (sortByKey (evCompletedBare ''resp-1'')) = map_of (evCompletedBare ''resp-1'')"
  using sse_frames[OF assms] client_roundtrip same_fields by simp

theorem sse_frames_and_roundtrip_witness:
  "sse [[(''type'', JStr ''ping'')], evResponseCreated ''resp-1''] =
     ''event: ping'' @ [LF, LF] @
     ''event: response.created'' @ [LF] @
     ''data: {\"response\":{\"id\":\"resp-1\"},\"type\":\"response.created\"}'' @ [LF, LF]"
  using sse_frames_and_roundtrip[of "[[(''type'', JStr ''ping'')], evResponseCreated ''resp-1'']"]
  by (simp add: evResponseCreated_def frame_def kindOf_def carriesPayload_def eval_marshal
      del: sse.simps)
end
